theory Spec2Isabelle
  imports Main "HOL-Library.AList" "HOL-Library.Sublist" "HOL-Library.Multiset"
begin

section \<open>Data model\<close>

text \<open>
  Paths and TLSH hashes are Python strings. A Python \<open>dict\<close> keeps its keys in order of
  first insertion and overwrites the value of a key that is already there: it is an
  association list, written with \<open>AList.update\<close> and read with \<open>map_of\<close>.
\<close>

type_synonym path = string
type_synonym hash = string
type_synonym 'v dict = "(string \<times> 'v) list"

text \<open>
  The exceptions that the modelled functions raise. \<open>ValueError\<close> and
  \<open>InsufficientFilesError\<close> carry their message. \<open>FileNotFoundError\<close> is the built-in
  one; \<open>OSError\<close> stands for every other error of the operating system
  (\<open>NotADirectoryError\<close>, \<open>PermissionError\<close>), none of which is a \<open>FileNotFoundError\<close>.
\<close>

datatype error =
    ValueError string
  | KeyError
  | IndexError
  | FileNotFoundError
  | OSError
  | InvalidHashError
  | InsufficientFilesError string
  | CacheError

text \<open>
  The values held by the \<open>float32\<close> array \<open>min_distances\<close> and by \<open>max_min_distance\<close>:
  \<open>-inf\<close>, \<open>inf\<close> and the integer distances returned by \<open>tlsh.diff\<close> (with \<open>-1\<close> as
  the marker of a selected file). TLSH scores are small integers, which \<open>float32\<close> holds
  exactly; comparison is the comparison of floats.
\<close>

datatype npfloat = NInf | Fin int | PInf

instantiation npfloat :: linorder
begin

fun less_eq_npfloat :: "npfloat \<Rightarrow> npfloat \<Rightarrow> bool" where
  "less_eq_npfloat NInf y = True"
| "less_eq_npfloat (Fin a) NInf = False"
| "less_eq_npfloat (Fin a) (Fin b) = (a \<le> b)"
| "less_eq_npfloat (Fin a) PInf = True"
| "less_eq_npfloat PInf PInf = True"
| "less_eq_npfloat PInf y = False"

definition less_npfloat :: "npfloat \<Rightarrow> npfloat \<Rightarrow> bool" where
  "less_npfloat x y = (x \<le> y \<and> \<not> y \<le> x)"

instance
proof
  fix x y z :: npfloat
  show "(x < y) = (x \<le> y \<and> \<not> y \<le> x)"
    by (simp add: less_npfloat_def)
  show "x \<le> x"
    by (cases x) simp_all
  show "x \<le> y \<Longrightarrow> y \<le> z \<Longrightarrow> x \<le> z"
    by (cases x; cases y; cases z) simp_all
  show "x \<le> y \<Longrightarrow> y \<le> x \<Longrightarrow> x = y"
    by (cases x; cases y) simp_all
  show "x \<le> y \<or> y \<le> x"
    by (cases x; cases y) auto
qed

end

section \<open>Greedy selection (selector.py)\<close>

text \<open>
  The random module: \<open>seed rng s\<close> is the generator state after \<open>random.seed(s)\<close>, and
  \<open>randint rng g a b\<close> the value \<open>random.randint(a, b)\<close> returns in state \<open>g\<close>.
\<close>

record 'g rng =
  seed :: "int \<Rightarrow> 'g"
  randint :: "'g \<Rightarrow> int \<Rightarrow> int \<Rightarrow> int"

text \<open>
  The inner loop \<open>for idx in range(n)\<close> of \<open>_greedy_selection\<close>, over the state
  \<open>(min_distances, max_min_distance, next_idx)\<close>; \<open>next_idx = -1\<close> is \<open>None\<close>.
  \<open>hash_dict\<close> is \<open>self._hash_dict\<close>, \<open>cur\<close> is \<open>current_hash\<close>.
\<close>

type_synonym scan_state = "npfloat list \<times> npfloat \<times> nat option"

fun scan_candidates ::
  "(hash \<Rightarrow> hash \<Rightarrow> int) \<Rightarrow> hash dict \<Rightarrow> path list \<Rightarrow> hash \<Rightarrow> nat list \<Rightarrow> scan_state
    \<Rightarrow> error + scan_state" where
  "scan_candidates diff hash_dict file_paths cur [] st = Inr st"
| "scan_candidates diff hash_dict file_paths cur (idx # idxs) (min_distances, max_min_distance, next_idx) =
    (if min_distances ! idx = Fin (- 1)
     then scan_candidates diff hash_dict file_paths cur idxs (min_distances, max_min_distance, next_idx)
     else (case map_of hash_dict (file_paths ! idx) of
         None \<Rightarrow> Inl KeyError
       | Some candidate_hash \<Rightarrow>
          (let distance = diff cur candidate_hash;
               md = min_distances[idx :=
                      (if min_distances ! idx = PInf then Fin distance
                       else min (min_distances ! idx) (Fin distance))]
           in if max_min_distance < md ! idx
              then scan_candidates diff hash_dict file_paths cur idxs (md, md ! idx, Some idx)
              else scan_candidates diff hash_dict file_paths cur idxs (md, max_min_distance, next_idx))))"

text \<open>
  The outer loop \<open>for _ in range(n_select - 1)\<close>, over the state
  \<open>(min_distances, selected_indices, diversity_scores)\<close>.
\<close>

type_synonym greedy_state = "npfloat list \<times> nat list \<times> npfloat list"

fun select_rounds ::
  "(hash \<Rightarrow> hash \<Rightarrow> int) \<Rightarrow> hash dict \<Rightarrow> path list \<Rightarrow> nat \<Rightarrow> greedy_state
    \<Rightarrow> error + greedy_state" where
  "select_rounds diff hash_dict file_paths 0 st = Inr st"
| "select_rounds diff hash_dict file_paths (Suc r) (min_distances, selected_indices, diversity_scores) =
    (case map_of hash_dict (file_paths ! last selected_indices) of
       None \<Rightarrow> Inl KeyError
     | Some current_hash \<Rightarrow>
        (case scan_candidates diff hash_dict file_paths current_hash [0..<length file_paths]
                (min_distances, NInf, None) of
           Inl e \<Rightarrow> Inl e
         | Inr (md, max_min_distance, next_idx) \<Rightarrow>
            (case next_idx of
               None \<Rightarrow> select_rounds diff hash_dict file_paths r (md, selected_indices, diversity_scores)
             | Some j \<Rightarrow>
                 select_rounds diff hash_dict file_paths r
                   (md[j := Fin (- 1)], selected_indices @ [j],
                    diversity_scores @ [max_min_distance]))))"

text \<open>
  \<open>_greedy_selection\<close>. \<open>random.randint(0, n - 1)\<close> raises \<open>ValueError\<close> on the empty range;
  its result indexes the array, which raises \<open>IndexError\<close> out of range (a generator
  that keeps its contract never gets there).
\<close>

definition greedy_selection ::
  "(hash \<Rightarrow> hash \<Rightarrow> int) \<Rightarrow> 'g rng \<Rightarrow> 'g \<Rightarrow> hash dict \<Rightarrow> path list \<Rightarrow> int
    \<Rightarrow> error + (nat list \<times> npfloat list)" where
  "greedy_selection diff rng g hash_dict file_paths n_select =
    (let n = length file_paths in
     if n = 0 then Inl (ValueError ''empty range for randrange()'')
     else
       (let first_idx = randint rng g 0 (int n - 1) in
        if first_idx < 0 \<or> int n \<le> first_idx then Inl IndexError
        else
          (case select_rounds diff hash_dict file_paths (nat (n_select - 1))
                  ((replicate n PInf)[nat first_idx := Fin (- 1)], [nat first_idx], [PInf]) of
             Inl e \<Rightarrow> Inl e
           | Inr (min_distances, selected_indices, diversity_scores) \<Rightarrow>
               Inr (selected_indices, diversity_scores))))"

section \<open>Hashing and the hash cache (hash_utils.py)\<close>

text \<open>
  The file system as the code reads it. A path is \<open>Absent\<close> (\<open>os.stat\<close> and \<open>open\<close> raise
  \<open>FileNotFoundError\<close>), \<open>Unreachable\<close> (they raise another error of the operating system:
  the path lies below a regular file, or a directory on the way cannot be searched), or
  \<open>Present\<close>: then \<open>os.stat\<close> gives the modification time and the size (the modification
  time is only ever compared for equality), and \<open>open(...).read()\<close> the bytes, unless the
  file cannot be read. The file system does not change while a call runs. \<open>tlsh_hash\<close> is
  \<open>tlsh.hash\<close>, \<open>cpu_count\<close> is \<open>mp.cpu_count()\<close>, and \<open>as_completed\<close> gives the order in
  which the worker pool completes the submitted tasks.
\<close>

record file_node =
  f_data :: "string option"
  st_mtime :: int
  st_size :: nat

datatype fs_entry = Absent | Unreachable | Present file_node

record hash_env =
  fs :: "path \<Rightarrow> fs_entry"
  tlsh_hash :: "string \<Rightarrow> hash"
  cpu_count :: int
  as_completed :: "path list \<Rightarrow> path list"

text \<open>
  \<open>compute_tlsh_hash\<close>: every exception of \<open>open\<close> and \<open>read\<close>, and an empty hash, end in
  \<open>InvalidHashError\<close>.
\<close>

definition compute_tlsh_hash :: "hash_env \<Rightarrow> path \<Rightarrow> error + hash" where
  "compute_tlsh_hash env file_path =
    (case fs env file_path of
       Absent \<Rightarrow> Inl InvalidHashError
     | Unreachable \<Rightarrow> Inl InvalidHashError
     | Present f \<Rightarrow>
        (case f_data f of
           None \<Rightarrow> Inl InvalidHashError
         | Some bytes \<Rightarrow>
            (let hash_value = tlsh_hash env bytes in
             if hash_value = [] then Inl InvalidHashError else Inr hash_value)))"

text \<open>
  A cache entry is the dictionary \<open>{"hash", "mtime", "size"}\<close> that \<open>set\<close> writes (a snapshot
  with entries of another shape is outside the model). The cache manager holds the
  in-memory store \<open>_cache\<close>, the flag \<open>_dirty\<close> and the snapshot file on disk, which is
  missing, unreadable or holds a stored dictionary.
\<close>

record entry =
  e_hash :: hash
  e_mtime :: int
  e_size :: nat

datatype snapshot = Missing | Corrupt | Stored "entry dict"

record cache_manager =
  cache :: "entry dict"
  dirty :: bool
  cache_file :: snapshot

definition load_cache :: "snapshot \<Rightarrow> error + cache_manager" where
  "load_cache disk =
    (case disk of
       Missing \<Rightarrow> Inr \<lparr>cache = [], dirty = False, cache_file = disk\<rparr>
     | Corrupt \<Rightarrow> Inl CacheError
     | Stored d \<Rightarrow> Inr \<lparr>cache = d, dirty = False, cache_file = disk\<rparr>)"

definition save_cache :: "cache_manager \<Rightarrow> cache_manager" where
  "save_cache cm =
    (if \<not> dirty cm then cm
     else cm\<lparr>cache_file := Stored (cache cm), dirty := False\<rparr>)"

definition get_file_metadata :: "hash_env \<Rightarrow> path \<Rightarrow> error + (int \<times> nat)" where
  "get_file_metadata env file_path =
    (case fs env file_path of
       Absent \<Rightarrow> Inl FileNotFoundError
     | Unreachable \<Rightarrow> Inl OSError
     | Present f \<Rightarrow> Inr (st_mtime f, st_size f))"

text \<open>
  \<open>_is_cache_valid\<close> catches \<open>FileNotFoundError\<close> and \<open>KeyError\<close> only: any other error of
  \<open>os.stat\<close> leaves the method as an exception.
\<close>

definition is_cache_valid :: "hash_env \<Rightarrow> cache_manager \<Rightarrow> path \<Rightarrow> error + bool" where
  "is_cache_valid env cm file_path =
    (case map_of (cache cm) file_path of
       None \<Rightarrow> Inr False
     | Some e \<Rightarrow>
        (case get_file_metadata env file_path of
           Inl err \<Rightarrow>
             (if err = FileNotFoundError \<or> err = KeyError then Inr False else Inl err)
         | Inr (current_mtime, current_size) \<Rightarrow>
             Inr (current_mtime = e_mtime e \<and> current_size = e_size e)))"

text \<open>
  The methods of \<open>CacheManager\<close> take the object and return it with their outcome (a
  value, or the exception that left the method), so that what a method leaves untouched
  is a statement about its result.
\<close>

definition cache_get ::
  "hash_env \<Rightarrow> cache_manager \<Rightarrow> path \<Rightarrow> (error + hash option) \<times> cache_manager" where
  "cache_get env cm file_path =
    (case is_cache_valid env cm file_path of
       Inl err \<Rightarrow> (Inl err, cm)
     | Inr valid \<Rightarrow>
         (if valid then (Inr (map_option e_hash (map_of (cache cm) file_path)), cm)
          else (Inr None, cm)))"

text \<open>\<open>set\<close> catches \<open>FileNotFoundError\<close> only.\<close>

definition cache_set ::
  "hash_env \<Rightarrow> cache_manager \<Rightarrow> path \<Rightarrow> hash \<Rightarrow> (error + unit) \<times> cache_manager" where
  "cache_set env cm file_path hash_value =
    (case get_file_metadata env file_path of
       Inl err \<Rightarrow> (if err = FileNotFoundError then (Inr (), cm) else (Inl err, cm))
     | Inr (mt, sz) \<Rightarrow>
         (Inr (),
          cm\<lparr>cache := AList.update file_path \<lparr>e_hash = hash_value, e_mtime = mt, e_size = sz\<rparr> (cache cm),
             dirty := True\<rparr>))"

text \<open>The loop of \<open>get_all_hashes\<close> over the items of the store.\<close>

fun collect_valid ::
  "hash_env \<Rightarrow> cache_manager \<Rightarrow> entry dict \<Rightarrow> hash dict \<Rightarrow> error + hash dict" where
  "collect_valid env cm [] result = Inr result"
| "collect_valid env cm ((file_path, data) # rest) result =
    (case is_cache_valid env cm file_path of
       Inl err \<Rightarrow> Inl err
     | Inr valid \<Rightarrow>
         collect_valid env cm rest
           (if valid then AList.update file_path (e_hash data) result else result))"

definition get_all_hashes ::
  "hash_env \<Rightarrow> cache_manager \<Rightarrow> (error + hash dict) \<times> cache_manager" where
  "get_all_hashes env cm = (collect_valid env cm (cache cm) [], cm)"

definition clear :: "cache_manager \<Rightarrow> cache_manager" where
  "clear cm = save_cache (cm\<lparr>cache := [], dirty := True\<rparr>)"

definition save :: "cache_manager \<Rightarrow> cache_manager" where
  "save cm = save_cache cm"

section \<open>Hashing many files (parallel.py)\<close>

definition compute_hash_worker :: "hash_env \<Rightarrow> path \<Rightarrow> path \<times> hash option" where
  "compute_hash_worker env file_path =
    (case compute_tlsh_hash env file_path of
       Inr hash_value \<Rightarrow> (file_path, Some hash_value)
     | Inl e \<Rightarrow> (file_path, None))"

text \<open>
  \<open>compute_hashes_parallel\<close>. With one worker the files are hashed in the order of the
  list; otherwise one task per list element goes to a \<open>ProcessPoolExecutor\<close>, whose
  constructor raises \<open>ValueError\<close> for a worker count below one, and the results are
  collected in the order of completion.
\<close>

definition compute_hashes_parallel :: "hash_env \<Rightarrow> path list \<Rightarrow> int \<Rightarrow> error + hash dict" where
  "compute_hashes_parallel env file_paths n_jobs0 =
    (let n_jobs = (if n_jobs0 = - 1 then cpu_count env else n_jobs0) in
     if n_jobs = 1 then
       Inr (fold (\<lambda>file_path results.
              case compute_tlsh_hash env file_path of
                Inr hash_value \<Rightarrow> AList.update file_path hash_value results
              | Inl e \<Rightarrow> results) file_paths [])
     else if n_jobs \<le> 0 then Inl (ValueError ''max_workers must be greater than 0'')
     else
       Inr (fold (\<lambda>task results.
              case compute_hash_worker env task of
                (file_path, Some hash_value) \<Rightarrow> AList.update file_path hash_value results
              | (file_path, None) \<Rightarrow> results) (as_completed env file_paths) []))"

section \<open>Selection (selector.py)\<close>

text \<open>Decimal rendering of integers, as in an f-string.\<close>

fun str_nat :: "nat \<Rightarrow> string" where
  "str_nat n =
    (if n < 10 then [''0123456789'' ! n]
     else str_nat (n div 10) @ [''0123456789'' ! (n mod 10)])"

declare str_nat.simps [simp del]

definition str_int :: "int \<Rightarrow> string" where
  "str_int i = (if i < 0 then ''-'' @ str_nat (nat (- i)) else str_nat (nat i))"

text \<open>
  \<open>SelectionResult\<close> (types.py), without the elapsed time, and the state of a
  \<open>FileSelector\<close>. The cache manager is there exactly when a non-empty \<open>cache_dir\<close> was
  given. Progress output (\<open>verbose\<close>) is left out.
\<close>

record selection_result =
  res_indices :: "nat list"
  res_file_paths :: "path list"
  res_hashes :: "hash dict option"
  res_diversity_scores :: "npfloat list option"

record file_selector =
  sel_cache_manager :: "cache_manager option"
  sel_n_jobs :: int
  sel_hash_dict :: "hash dict"

text \<open>\<open>list.index\<close>: the first position of a value, \<open>ValueError\<close> (here \<open>None\<close>) when absent.\<close>

fun list_index :: "'a list \<Rightarrow> 'a \<Rightarrow> nat option" where
  "list_index [] x = None"
| "list_index (y # ys) x = (if y = x then Some 0 else map_option Suc (list_index ys x))"

text \<open>
  The first loop of \<open>_compute_or_load_hashes\<close>, over \<open>(hash_dict, files_to_compute)\<close> and
  the cache manager: a cached hash counts when it is truthy, and an exception of \<open>get\<close>
  ends the loop.
\<close>

fun check_cache ::
  "hash_env \<Rightarrow> path list \<Rightarrow> hash dict \<times> path list \<Rightarrow> cache_manager
    \<Rightarrow> (error + hash dict \<times> path list) \<times> cache_manager" where
  "check_cache env [] st cm = (Inr st, cm)"
| "check_cache env (file_path # rest) (hash_dict, files_to_compute) cm =
    (case cache_get env cm file_path of
       (Inl err, cm1) \<Rightarrow> (Inl err, cm1)
     | (Inr (Some cached_hash), cm1) \<Rightarrow>
         (if cached_hash \<noteq> []
          then check_cache env rest (AList.update file_path cached_hash hash_dict, files_to_compute) cm1
          else check_cache env rest (hash_dict, files_to_compute @ [file_path]) cm1)
     | (Inr None, cm1) \<Rightarrow> check_cache env rest (hash_dict, files_to_compute @ [file_path]) cm1)"

text \<open>The last loop of \<open>_compute_or_load_hashes\<close>: \<open>set\<close> for every computed hash.\<close>

fun store_hashes ::
  "hash_env \<Rightarrow> hash dict \<Rightarrow> cache_manager \<Rightarrow> (error + unit) \<times> cache_manager" where
  "store_hashes env [] cm = (Inr (), cm)"
| "store_hashes env ((file_path, hash_value) # rest) cm =
    (case cache_set env cm file_path hash_value of
       (Inl err, cm1) \<Rightarrow> (Inl err, cm1)
     | (Inr u, cm1) \<Rightarrow> store_hashes env rest cm1)"

text \<open>
  \<open>_compute_or_load_hashes\<close>, returning the hash dictionary, or the exception, and the
  cache manager as the call leaves it.
\<close>

definition compute_or_load_hashes ::
  "hash_env \<Rightarrow> file_selector \<Rightarrow> path list \<Rightarrow> (error + hash dict) \<times> cache_manager option" where
  "compute_or_load_hashes env self file_paths =
    (case (case sel_cache_manager self of
             Some cm \<Rightarrow>
               (case check_cache env file_paths ([], []) cm of
                  (r, cm1) \<Rightarrow> (r, Some cm1))
           | None \<Rightarrow> (Inr ([], file_paths), None)) of
       (Inl err, cmo) \<Rightarrow> (Inl err, cmo)
     | (Inr (hash_dict, files_to_compute), cmo) \<Rightarrow>
         (if files_to_compute \<noteq> [] then
            (case compute_hashes_parallel env files_to_compute (sel_n_jobs self) of
               Inl err \<Rightarrow> (Inl err, cmo)
             | Inr computed_hashes \<Rightarrow>
                (let hash_dict1 = fold (\<lambda>(k, v) d. AList.update k v d) computed_hashes hash_dict in
                 case cmo of
                   None \<Rightarrow> (Inr hash_dict1, None)
                 | Some cm \<Rightarrow>
                    (case store_hashes env computed_hashes cm of
                       (Inl err, cm1) \<Rightarrow> (Inl err, Some cm1)
                     | (Inr u, cm1) \<Rightarrow> (Inr hash_dict1, Some cm1))))
          else (Inr hash_dict, cmo)))"

definition insufficient_message :: "nat \<Rightarrow> int \<Rightarrow> string" where
  "insufficient_message n_valid n_select =
     ''Only '' @ str_int (int n_valid) @ '' valid files found, but '' @ str_int n_select
       @ '' requested. Check if files exist and are valid for TLSH hashing (>= 50 bytes).''"

text \<open>
  \<open>FileSelector.select\<close>, returning the outcome and the selector as the call leaves it.
  \<open>g0\<close> is the state of the random generator when the call starts.
\<close>

definition select ::
  "hash_env \<Rightarrow> (hash \<Rightarrow> hash \<Rightarrow> int) \<Rightarrow> 'g rng \<Rightarrow> 'g \<Rightarrow> file_selector \<Rightarrow> path list \<Rightarrow> int
    \<Rightarrow> int option \<Rightarrow> (error + selection_result) \<times> file_selector" where
  "select env diff rng g0 self file_paths n_select random_state =
    (let g = (case random_state of None \<Rightarrow> g0 | Some s \<Rightarrow> seed rng s) in
     case compute_or_load_hashes env self file_paths of
       (Inl e, cmo) \<Rightarrow> (Inl e, self\<lparr>sel_cache_manager := cmo\<rparr>)
     | (Inr hash_dict, cmo) \<Rightarrow>
        (let self1 = self\<lparr>sel_hash_dict := hash_dict, sel_cache_manager := cmo\<rparr>;
             valid_paths = map fst hash_dict
         in if int (length valid_paths) < n_select
            then (Inl (InsufficientFilesError
                         (insufficient_message (length valid_paths) n_select)), self1)
            else
              (case greedy_selection diff rng g hash_dict valid_paths n_select of
                 Inl e \<Rightarrow> (Inl e, self1)
               | Inr (selected_indices, diversity_scores) \<Rightarrow>
                  (case those (map (\<lambda>idx. list_index file_paths (valid_paths ! idx))
                                 selected_indices) of
                     None \<Rightarrow> (Inl (ValueError ''x is not in list''), self1)
                   | Some original_indices \<Rightarrow>
                      (Inr \<lparr>res_indices = original_indices,
                            res_file_paths = map (\<lambda>i. file_paths ! i) original_indices,
                            res_hashes = (if cmo \<noteq> None then Some hash_dict else None),
                            res_diversity_scores =
                              (if diversity_scores \<noteq> [] then Some diversity_scores else None)\<rparr>,
                       self1\<lparr>sel_cache_manager := map_option save cmo\<rparr>)))))"

text \<open>
  \<open>FileSelector.__init__\<close>: the cache manager is built, and its snapshot loaded, only for
  a truthy \<open>cache_dir\<close>. \<open>disk\<close> maps a cache directory to its snapshot file.
\<close>

definition file_selector_init ::
  "(string \<Rightarrow> snapshot) \<Rightarrow> string option \<Rightarrow> int \<Rightarrow> error + file_selector" where
  "file_selector_init disk cache_dir n_jobs =
    (case cache_dir of
       None \<Rightarrow> Inr \<lparr>sel_cache_manager = None, sel_n_jobs = n_jobs, sel_hash_dict = []\<rparr>
     | Some d \<Rightarrow>
        (if d = [] then Inr \<lparr>sel_cache_manager = None, sel_n_jobs = n_jobs, sel_hash_dict = []\<rparr>
         else (case load_cache (disk d) of
                 Inl e \<Rightarrow> Inl e
               | Inr cm \<Rightarrow>
                   Inr \<lparr>sel_cache_manager = Some cm, sel_n_jobs = n_jobs, sel_hash_dict = []\<rparr>)))"

text \<open>
  \<open>select_diverse_files\<close>, returning the outcome and the snapshot files as the call
  leaves them.
\<close>

definition select_diverse_files ::
  "hash_env \<Rightarrow> (hash \<Rightarrow> hash \<Rightarrow> int) \<Rightarrow> 'g rng \<Rightarrow> 'g \<Rightarrow> (string \<Rightarrow> snapshot) \<Rightarrow> path list \<Rightarrow> int
    \<Rightarrow> string option \<Rightarrow> int \<Rightarrow> int option
    \<Rightarrow> (error + selection_result) \<times> (string \<Rightarrow> snapshot)" where
  "select_diverse_files env diff rng g0 disk file_paths n_select cache_dir n_jobs random_state =
    (if n_select \<le> 0
     then (Inl (ValueError (''n_select must be positive, got '' @ str_int n_select)), disk)
     else if n_select > int (length file_paths)
     then (Inl (ValueError (''n_select ('' @ str_int n_select
                  @ '') cannot be greater than number of files (''
                  @ str_int (int (length file_paths)) @ '')'')), disk)
     else
       (let g = (case random_state of None \<Rightarrow> g0 | Some s \<Rightarrow> seed rng s) in
        case file_selector_init disk cache_dir n_jobs of
          Inl e \<Rightarrow> (Inl e, disk)
        | Inr selector \<Rightarrow>
           (case select env diff rng g selector file_paths n_select random_state of
              (result, selector1) \<Rightarrow>
                (result,
                 (case (cache_dir, sel_cache_manager selector1) of
                    (Some d, Some cm) \<Rightarrow> disk(d := cache_file cm)
                  | _ \<Rightarrow> disk)))))"

section \<open>Specification vocabulary\<close>

text \<open>
  The specification of a pick, in the spec's words: the minimum distance of candidate \<open>i\<close>
  to the already-selected candidates \<open>ss\<close> (\<open>inf\<close> when nothing is selected), for a
  distance \<open>D\<close> between candidate positions.
\<close>

fun spec_min_distance :: "(nat \<Rightarrow> nat \<Rightarrow> int) \<Rightarrow> nat list \<Rightarrow> nat \<Rightarrow> npfloat" where
  "spec_min_distance D [] i = PInf"
| "spec_min_distance D (s # ss) i = min (Fin (D s i)) (spec_min_distance D ss i)"

text \<open>
  The distance between the candidates at positions \<open>s\<close> and \<open>i\<close> of the list handed to
  \<open>_greedy_selection\<close>: \<open>tlsh.diff\<close> of their hashes, with the selected one first.
\<close>

definition cand_distance ::
  "(hash \<Rightarrow> hash \<Rightarrow> int) \<Rightarrow> hash dict \<Rightarrow> path list \<Rightarrow> nat \<Rightarrow> nat \<Rightarrow> int" where
  "cand_distance diff hash_dict file_paths s i =
    (case map_of hash_dict (file_paths ! s) of
       None \<Rightarrow> 0
     | Some a \<Rightarrow> (case map_of hash_dict (file_paths ! i) of None \<Rightarrow> 0 | Some b \<Rightarrow> diff a b))"

text \<open>
  Pick number \<open>t\<close> is a farthest-point pick: it is a candidate not selected before, its
  score is its minimum distance to the picks before it, no unselected candidate has a
  larger minimum distance, and every unselected candidate at a lower position has a
  strictly smaller one.
\<close>

definition farthest_point_pick ::
  "(nat \<Rightarrow> nat \<Rightarrow> int) \<Rightarrow> nat \<Rightarrow> nat list \<Rightarrow> npfloat list \<Rightarrow> nat \<Rightarrow> bool" where
  "farthest_point_pick D n sel scores t \<longleftrightarrow>
     sel ! t < n \<and> sel ! t \<notin> set (take t sel)
     \<and> scores ! t = spec_min_distance D (take t sel) (sel ! t)
     \<and> (\<forall>i<n. i \<notin> set (take t sel) \<longrightarrow>
           spec_min_distance D (take t sel) i \<le> scores ! t
           \<and> (i < sel ! t \<longrightarrow> spec_min_distance D (take t sel) i < scores ! t))"

text \<open>The invariant of the outer loop, between two rounds.\<close>

definition greedy_inv :: "(nat \<Rightarrow> nat \<Rightarrow> int) \<Rightarrow> nat \<Rightarrow> greedy_state \<Rightarrow> bool" where
  "greedy_inv D n st =
    (case st of (md, sel, scores) \<Rightarrow>
       length md = n \<and> sel \<noteq> [] \<and> distinct sel \<and> (\<forall>s\<in>set sel. s < n)
       \<and> length scores = length sel
       \<and> (\<forall>i<n. md ! i = (if i \<in> set sel then Fin (- 1) else spec_min_distance D (butlast sel) i))
       \<and> (\<forall>t. 1 \<le> t \<and> t < length sel \<longrightarrow> farthest_point_pick D n sel scores t))"

section \<open>Example data\<close>

text \<open>
  A small file system: \<open>a\<close>, \<open>b\<close>, \<open>c\<close> and \<open>d\<close> are files that hash, \<open>tiny\<close> is too
  small to hash, every other path is missing. The example hash of a file is its content and the
  example distance the difference of the lengths.
\<close>

definition ex_fs :: "path \<Rightarrow> fs_entry" where
  "ex_fs p =
    (if p = ''a'' then Present \<lparr>f_data = Some ''x'', st_mtime = 1, st_size = 1\<rparr>
     else if p = ''b'' then Present \<lparr>f_data = Some ''xxx'', st_mtime = 2, st_size = 3\<rparr>
     else if p = ''c'' then Present \<lparr>f_data = Some ''xxxxxx'', st_mtime = 3, st_size = 6\<rparr>
     else if p = ''d'' then Present \<lparr>f_data = Some ''xxxxx'', st_mtime = 5, st_size = 5\<rparr>
     else if p = ''tiny'' then Present \<lparr>f_data = Some [], st_mtime = 4, st_size = 0\<rparr>
     else Absent)"

definition ex_env :: hash_env where
  "ex_env = \<lparr>fs = ex_fs, tlsh_hash = (\<lambda>bytes. bytes), cpu_count = 4, as_completed = rev\<rparr>"

definition ex_diff :: "hash \<Rightarrow> hash \<Rightarrow> int" where
  "ex_diff h1 h2 = \<bar>int (length h1) - int (length h2)\<bar>"

text \<open>
  The file \<open>a\<close> after it was rewritten, after it was deleted, and after a directory above
  it was replaced by a regular file.
\<close>

definition ex_env_touched :: hash_env where
  "ex_env_touched =
     ex_env\<lparr>fs := (ex_fs(''a'' := Present \<lparr>f_data = Some ''y'', st_mtime = 7, st_size = 1\<rparr>))\<rparr>"

definition ex_env_deleted :: hash_env where
  "ex_env_deleted = ex_env\<lparr>fs := (ex_fs(''a'' := Absent))\<rparr>"

definition ex_env_blocked :: hash_env where
  "ex_env_blocked = ex_env\<lparr>fs := (ex_fs(''a'' := Unreachable))\<rparr>"

text \<open>A cache manager whose only entry, for \<open>a\<close>, is stale.\<close>

definition ex_stale_cm :: cache_manager where
  "ex_stale_cm =
     \<lparr>cache = [(''a'', \<lparr>e_hash = ''old'', e_mtime = 0, e_size = 1\<rparr>)], dirty = True,
      cache_file = Missing\<rparr>"

text \<open>
  A generator whose state is the seed and whose \<open>randint(a, b)\<close> is \<open>a + g mod (b - a + 1)\<close>;
  a selector without cache and with one worker; ten candidates on a line, at distance
  \<open>|i - j|\<close> of each other.
\<close>

definition ex_rng :: "int rng" where
  "ex_rng = \<lparr>seed = (\<lambda>s. s), randint = (\<lambda>g a b. a + g mod (b - a + 1))\<rparr>"

definition ex_selector :: file_selector where
  "ex_selector = \<lparr>sel_cache_manager = None, sel_n_jobs = 1, sel_hash_dict = []\<rparr>"

definition ex_selector_after :: file_selector where
  "ex_selector_after =
     ex_selector\<lparr>sel_hash_dict := [(''a'', ''x''), (''b'', ''xxx''), (''c'', ''xxxxxx'')]\<rparr>"

definition ex_result :: selection_result where
  "ex_result =
     \<lparr>res_indices = [0, 2, 1], res_file_paths = [''a'', ''c'', ''b''], res_hashes = None,
      res_diversity_scores = Some [PInf, Fin 5, Fin 2]\<rparr>"

definition line_paths :: "path list" where
  "line_paths = [''f0'', ''f1'', ''f2'', ''f3'', ''f4'', ''f5'', ''f6'', ''f7'', ''f8'', ''f9'']"

definition line_dict :: "hash dict" where
  "line_dict = map (\<lambda>i. (line_paths ! i, replicate (Suc i) CHR ''x'')) [0..<10]"

text \<open>
  The results of two more runs (all distances zero; a path given twice), a cache
  directory whose snapshot holds a valid entry for \<open>d\<close> only, and one whose snapshot
  holds a valid entry for \<open>b\<close> only.
\<close>

definition ex_zero_result :: selection_result where
  "ex_zero_result =
     \<lparr>res_indices = [0, 1, 2], res_file_paths = [''a'', ''b'', ''c''], res_hashes = None,
      res_diversity_scores = Some [PInf, Fin 0, Fin 0]\<rparr>"


definition ex_disk_d :: "string \<Rightarrow> snapshot" where
  "ex_disk_d dir =
     (if dir = ''cache'' then Stored [(''d'', \<lparr>e_hash = ''xxxxx'', e_mtime = 5, e_size = 5\<rparr>)]
      else Missing)"

definition ex_disk_b :: "string \<Rightarrow> snapshot" where
  "ex_disk_b d =
     (if d = ''cache'' then Stored [(''b'', \<lparr>e_hash = ''xxx'', e_mtime = 2, e_size = 3\<rparr>)]
      else Missing)"

text \<open>
  The selector that \<open>select_diverse_files\<close> builds on that cache directory, and the store
  and the selector after a run on \<open>[a, b]\<close> has added \<open>a\<close>.
\<close>

definition ex_selector_b :: file_selector where
  "ex_selector_b =
     \<lparr>sel_cache_manager = Some \<lparr>cache = [(''b'', \<lparr>e_hash = ''xxx'', e_mtime = 2, e_size = 3\<rparr>)],
          dirty = False, cache_file = ex_disk_b ''cache''\<rparr>,
      sel_n_jobs = 1, sel_hash_dict = []\<rparr>"

definition ex_cache_ba :: "entry dict" where
  "ex_cache_ba = [(''b'', \<lparr>e_hash = ''xxx'', e_mtime = 2, e_size = 3\<rparr>),
                  (''a'', \<lparr>e_hash = ''x'', e_mtime = 1, e_size = 1\<rparr>)]"

definition ex_selector_ba :: file_selector where
  "ex_selector_ba =
     \<lparr>sel_cache_manager = Some \<lparr>cache = ex_cache_ba, dirty = False, cache_file = Stored ex_cache_ba\<rparr>,
      sel_n_jobs = 1, sel_hash_dict = []\<rparr>"

section \<open>Properties of the hash cache\<close>

lemma cache_get_state: "snd (cache_get env cm p) = cm"
  by (simp add: cache_get_def split: sum.splits)

lemma get_all_hashes_state: "snd (get_all_hashes env cm) = cm"
  by (simp add: get_all_hashes_def)

lemma cache_set_other:
  "q \<noteq> p \<Longrightarrow> map_of (cache (snd (cache_set env cm q h))) p = map_of (cache cm) p"
  by (simp add: cache_set_def update_conv' split: sum.splits)

lemma cache_set_same:
  "fs env p = Present f \<Longrightarrow>
   cache_set env cm p h
     = (Inr (), cm\<lparr>cache := AList.update p \<lparr>e_hash = h, e_mtime = st_mtime f, e_size = st_size f\<rparr>
                             (cache cm),
                  dirty := True\<rparr>)"
  by (simp add: cache_set_def get_file_metadata_def)

lemma cache_set_entry:
  "fs env p = Present f \<Longrightarrow>
   map_of (cache (snd (cache_set env cm p h))) p
     = Some \<lparr>e_hash = h, e_mtime = st_mtime f, e_size = st_size f\<rparr>"
  by (simp add: cache_set_same update_conv')

lemma save_keeps_store: "cache (save cm) = cache cm"
  by (simp add: save_def save_cache_def)

lemma save_writes_store: "dirty cm \<Longrightarrow> cache_file (save cm) = Stored (cache cm)"
  by (simp add: save_def save_cache_def)

lemma clear_empties: "cache (clear cm) = [] \<and> cache_file (clear cm) = Stored []"
  by (simp add: clear_def save_cache_def)

text \<open>
  What holds of the round trip. Let \<open>set(id, f)\<close> run on a file system \<open>env\<close>, where the
  resource is present, and the following \<open>get(id)\<close> on a file system \<open>env'\<close>. With the same
  modification time and size \<open>get\<close> returns \<open>f\<close>; with another modification time or size
  it returns \<open>None\<close>; and when \<open>os.stat\<close> reports the resource as not found it returns
  \<open>None\<close>, whatever the store holds.
\<close>

lemma cache_round_trip:
  "(fs env p = Present f \<and> fs env' p = Present f' \<and> st_mtime f' = st_mtime f
      \<and> st_size f' = st_size f
      \<longrightarrow> fst (cache_get env' (snd (cache_set env cm p h)) p) = Inr (Some h))
   \<and> (fs env p = Present f \<and> fs env' p = Present f'
        \<and> (st_mtime f' \<noteq> st_mtime f \<or> st_size f' \<noteq> st_size f)
      \<longrightarrow> fst (cache_get env' (snd (cache_set env cm p h)) p) = Inr None)
   \<and> (fs env' p = Absent \<longrightarrow> fst (cache_get env' cm p) = Inr None)"
  by (auto simp add: cache_get_def cache_set_def is_cache_valid_def get_file_metadata_def
        update_conv' split: option.splits sum.splits)

text \<open>
  Claim C8 (after \<open>set(id, f)\<close>, \<open>get(id)\<close> returns \<open>None\<close> when the resource no longer
  exists) does not hold of the code for every way a resource ceases to exist. When the
  resource was present at the \<open>set\<close> and \<open>os.stat\<close> then fails with an error that is not
  \<open>FileNotFoundError\<close> (a directory above the resource was replaced by a regular file:
  \<open>NotADirectoryError\<close>), \<open>_is_cache_valid\<close> does not catch the error, and \<open>get\<close> raises it.
\<close>

theorem get_raises_for_unreachable_resource:
  "fs env p = Present f \<and> fs env' p = Unreachable
     \<longrightarrow> fst (cache_get env' (snd (cache_set env cm p h)) p) = Inl OSError"
  by (simp add: cache_get_def cache_set_def is_cache_valid_def get_file_metadata_def update_conv')

theorem get_raises_for_unreachable_resource_witness:
  "fs ex_env ''a'' = Present \<lparr>f_data = Some ''x'', st_mtime = 1, st_size = 1\<rparr>
   \<and> fs ex_env_blocked ''a'' = Unreachable
   \<and> fst (cache_get ex_env_blocked (snd (cache_set ex_env ex_stale_cm ''a'' ''H'')) ''a'')
       = Inl OSError
   \<and> fst (cache_get ex_env (snd (cache_set ex_env ex_stale_cm ''a'' ''H'')) ''a'')
       = Inr (Some ''H'')
   \<and> fst (cache_get ex_env_touched (snd (cache_set ex_env ex_stale_cm ''a'' ''H'')) ''a'')
       = Inr None
   \<and> fst (cache_get ex_env_deleted (snd (cache_set ex_env ex_stale_cm ''a'' ''H'')) ''a'')
       = Inr None"
proof -
  have e: "fs ex_env ''a'' = Present \<lparr>f_data = Some ''x'', st_mtime = 1, st_size = 1\<rparr>"
    "fs ex_env_blocked ''a'' = Unreachable"
    by (simp_all add: ex_env_def ex_env_blocked_def ex_fs_def)
  have r: "fst (cache_get ex_env (snd (cache_set ex_env ex_stale_cm ''a'' ''H'')) ''a'')
       = Inr (Some ''H'')"
    "fst (cache_get ex_env_touched (snd (cache_set ex_env ex_stale_cm ''a'' ''H'')) ''a'')
       = Inr None"
    "fst (cache_get ex_env_deleted (snd (cache_set ex_env ex_stale_cm ''a'' ''H'')) ''a'')
       = Inr None"
    by code_simp+
  from get_raises_for_unreachable_resource [of ex_env "''a''"
         "\<lparr>f_data = Some ''x'', st_mtime = 1, st_size = 1\<rparr>" ex_env_blocked ex_stale_cm "''H''"]
       e r
  show ?thesis by simp
qed

text \<open>
  Claim C10. \<open>get\<close> and \<open>get_all_hashes\<close> return the cache manager as they found it (store,
  dirty flag and snapshot), also when they raise. An entry that is stale is reported as
  absent and stays in the store, and so does an entry whose check raises; \<open>set\<close> for
  another id leaves it alone, \<open>save\<close> writes the whole store, stale entries included, to
  the snapshot; only \<open>set\<close> for the same id replaces it and \<open>clear\<close> removes it.
\<close>

theorem lookups_are_pure_reads:
  "snd (cache_get env cm p) = cm
   \<and> snd (get_all_hashes env cm) = cm
   \<and> (is_cache_valid env cm p = Inr False \<longrightarrow>
        fst (cache_get env cm p) = Inr None
        \<and> map_of (cache (snd (cache_get env cm p))) p = map_of (cache cm) p
        \<and> map_of (cache (snd (get_all_hashes env cm))) p = map_of (cache cm) p)
   \<and> (is_cache_valid env cm p = Inl err \<longrightarrow>
        fst (cache_get env cm p) = Inl err
        \<and> map_of (cache (snd (cache_get env cm p))) p = map_of (cache cm) p
        \<and> map_of (cache (snd (get_all_hashes env cm))) p = map_of (cache cm) p)
   \<and> (q \<noteq> p \<longrightarrow> map_of (cache (snd (cache_set env cm q h))) p = map_of (cache cm) p)
   \<and> cache (save cm) = cache cm
   \<and> (dirty cm \<longrightarrow> cache_file (save cm) = Stored (cache cm))
   \<and> (fs env p = Present f \<longrightarrow>
        map_of (cache (snd (cache_set env cm p h))) p
          = Some \<lparr>e_hash = h, e_mtime = st_mtime f, e_size = st_size f\<rparr>)
   \<and> cache (clear cm) = []"
proof -
  have a: "is_cache_valid env cm p = Inr False \<longrightarrow> fst (cache_get env cm p) = Inr None"
    by (simp add: cache_get_def)
  have b: "is_cache_valid env cm p = Inl err \<longrightarrow> fst (cache_get env cm p) = Inl err"
    by (simp add: cache_get_def)
  show ?thesis
    using a b cache_set_other [of q p env cm h] cache_set_entry [of env p f cm h]
    by (simp add: cache_get_state get_all_hashes_state save_keeps_store save_writes_store
          clear_empties)
qed

theorem lookups_are_pure_reads_witness:
  "is_cache_valid ex_env ex_stale_cm ''a'' = Inr False
   \<and> is_cache_valid ex_env_blocked ex_stale_cm ''a'' = Inl OSError
   \<and> ''b'' \<noteq> ''a'' \<and> dirty ex_stale_cm
   \<and> fs ex_env ''a'' = Present \<lparr>f_data = Some ''x'', st_mtime = 1, st_size = 1\<rparr>
   \<and> fst (cache_get ex_env ex_stale_cm ''a'') = Inr None
   \<and> fst (cache_get ex_env_blocked ex_stale_cm ''a'') = Inl OSError
   \<and> map_of (cache (snd (cache_get ex_env ex_stale_cm ''a''))) ''a''
       = Some \<lparr>e_hash = ''old'', e_mtime = 0, e_size = 1\<rparr>
   \<and> map_of (cache (snd (cache_get ex_env_blocked ex_stale_cm ''a''))) ''a''
       = Some \<lparr>e_hash = ''old'', e_mtime = 0, e_size = 1\<rparr>
   \<and> map_of (cache (snd (get_all_hashes ex_env ex_stale_cm))) ''a''
       = Some \<lparr>e_hash = ''old'', e_mtime = 0, e_size = 1\<rparr>
   \<and> map_of (cache (snd (cache_set ex_env ex_stale_cm ''b'' ''H''))) ''a''
       = Some \<lparr>e_hash = ''old'', e_mtime = 0, e_size = 1\<rparr>
   \<and> cache_file (save ex_stale_cm)
       = Stored [(''a'', \<lparr>e_hash = ''old'', e_mtime = 0, e_size = 1\<rparr>)]
   \<and> map_of (cache (snd (cache_set ex_env ex_stale_cm ''a'' ''H''))) ''a''
       = Some \<lparr>e_hash = ''H'', e_mtime = 1, e_size = 1\<rparr>"
proof -
  have v: "is_cache_valid ex_env ex_stale_cm ''a'' = Inr False"
    "is_cache_valid ex_env_blocked ex_stale_cm ''a'' = Inl OSError"
    by code_simp+
  have e: "fs ex_env ''a'' = Present \<lparr>f_data = Some ''x'', st_mtime = 1, st_size = 1\<rparr>"
    "dirty ex_stale_cm"
    "map_of (cache ex_stale_cm) ''a'' = Some \<lparr>e_hash = ''old'', e_mtime = 0, e_size = 1\<rparr>"
    "cache ex_stale_cm = [(''a'', \<lparr>e_hash = ''old'', e_mtime = 0, e_size = 1\<rparr>)]"
    by (simp_all add: ex_env_def ex_fs_def ex_stale_cm_def)
  from lookups_are_pure_reads [of ex_env ex_stale_cm "''a''" OSError "''b''" "''H''"
          "\<lparr>f_data = Some ''x'', st_mtime = 1, st_size = 1\<rparr>"]
       lookups_are_pure_reads [of ex_env_blocked ex_stale_cm "''a''" OSError "''b''" "''H''"
          "\<lparr>f_data = Some ''x'', st_mtime = 1, st_size = 1\<rparr>"]
       v e
  show ?thesis by simp
qed

section \<open>Properties of the greedy selection\<close>

subsection \<open>Float comparison\<close>

lemma npfloat_less_simps [simp]:
  "Fin a < Fin b \<longleftrightarrow> a < b" "NInf < Fin a" "Fin a < PInf" "NInf < PInf"
  "\<not> x < NInf" "\<not> PInf < x" "\<not> Fin a < NInf" "\<not> PInf < Fin a"
  by (cases x; auto simp: less_npfloat_def)+

lemma npfloat_le_simps [simp]: "x \<le> PInf" "PInf \<le> x \<longleftrightarrow> x = PInf" "x \<le> NInf \<longleftrightarrow> x = NInf"
  by (cases x; simp)+

lemma min_PInf [simp]: "min PInf x = x" "min x PInf = x"
  by (simp_all add: min_def)

lemma NInf_less_iff: "NInf < x \<longleftrightarrow> x \<noteq> NInf"
  by (cases x) simp_all

lemma scan_append:
  "scan_candidates diff hash_dict fps cur (xs @ ys) st =
     (case scan_candidates diff hash_dict fps cur xs st of
        Inl e \<Rightarrow> Inl e
      | Inr st' \<Rightarrow> scan_candidates diff hash_dict fps cur ys st')"
proof (induction xs arbitrary: st)
  case Nil
  show ?case by simp
next
  case (Cons x xs)
  obtain md mx nxt where st: "st = (md, mx, nxt)" by (cases st) auto
  show ?case
    unfolding st by (simp add: Cons.IH Let_def split: option.splits)
qed

subsection \<open>One scan over the candidates\<close>

lemma scan_single:
  assumes "md ! idx \<noteq> Fin (- 1)" "map_of hash_dict (fps ! idx) = Some h" "idx < length md"
  shows "scan_candidates diff hash_dict fps cur [idx] (md, mx, nxt) =
     (if mx < min (md ! idx) (Fin (diff cur h))
      then Inr (md[idx := min (md ! idx) (Fin (diff cur h))], min (md ! idx) (Fin (diff cur h)), Some idx)
      else Inr (md[idx := min (md ! idx) (Fin (diff cur h))], mx, nxt))"
  using assms by (cases "md ! idx = PInf") (simp_all add: Let_def)

lemma scan_prefix:
  assumes LK: "\<forall>i<length fps. map_of hash_dict (fps ! i) = Some (H i)"
    and len: "length md = length fps"
    and noN: "NInf \<notin> set md"
    and m: "m \<le> length fps"
  shows "\<exists>md' mx nxt.
     scan_candidates diff hash_dict fps cur [0..<m] (md, NInf, None) = Inr (md', mx, nxt)
     \<and> length md' = length fps
     \<and> (\<forall>i<length fps. md' ! i =
           (if i < m \<and> md ! i \<noteq> Fin (- 1) then min (md ! i) (Fin (diff cur (H i))) else md ! i))
     \<and> (nxt = None \<longrightarrow> mx = NInf \<and> (\<forall>i<m. md ! i = Fin (- 1)))
     \<and> (\<forall>j. nxt = Some j \<longrightarrow> j < m \<and> md ! j \<noteq> Fin (- 1) \<and> mx = md' ! j
           \<and> (\<forall>i<m. md ! i \<noteq> Fin (- 1) \<longrightarrow> md' ! i \<le> mx \<and> (i < j \<longrightarrow> md' ! i < mx)))"
  using m
proof (induction m)
  case 0
  show ?case using len by simp
next
  case (Suc m)
  then have mlt: "m < length fps" by simp
  then have "m \<le> length fps" by simp
  from Suc.IH [OF this] obtain md' mx nxt where
    run: "scan_candidates diff hash_dict fps cur [0..<m] (md, NInf, None) = Inr (md', mx, nxt)"
    and len': "length md' = length fps"
    and vals: "\<forall>i<length fps. md' ! i =
           (if i < m \<and> md ! i \<noteq> Fin (- 1) then min (md ! i) (Fin (diff cur (H i))) else md ! i)"
    and none: "nxt = None \<longrightarrow> mx = NInf \<and> (\<forall>i<m. md ! i = Fin (- 1))"
    and some: "\<forall>j. nxt = Some j \<longrightarrow> j < m \<and> md ! j \<noteq> Fin (- 1) \<and> mx = md' ! j
           \<and> (\<forall>i<m. md ! i \<noteq> Fin (- 1) \<longrightarrow> md' ! i \<le> mx \<and> (i < j \<longrightarrow> md' ! i < mx))"
    by blast
  have md'm: "md' ! m = md ! m" using vals mlt by simp
  have lk: "map_of hash_dict (fps ! m) = Some (H m)" using LK mlt by simp
  define v where "v = min (md ! m) (Fin (diff cur (H m)))"
  have "md ! m \<in> set md" using len mlt by simp
  with noN have "md ! m \<noteq> NInf" by metis
  then have vN: "v \<noteq> NInf"
    by (cases "md ! m") (auto simp: v_def min_def)
  show ?case
  proof (cases "md ! m = Fin (- 1)")
    case True
    have step: "scan_candidates diff hash_dict fps cur [0..<Suc m] (md, NInf, None) = Inr (md', mx, nxt)"
      using True by (simp add: scan_append run md'm)
    show ?thesis
      unfolding step using len' vals none some True
      by (auto simp: less_Suc_eq)
  next
    case False
    define md2 where "md2 = md'[m := v]"
    have md2_len: "length md2 = length fps" by (simp add: md2_def len')
    have md2_vals: "\<forall>i<length fps. md2 ! i =
           (if i < Suc m \<and> md ! i \<noteq> Fin (- 1) then min (md ! i) (Fin (diff cur (H i))) else md ! i)"
    proof (intro allI impI)
      fix i assume i: "i < length fps"
      show "md2 ! i =
           (if i < Suc m \<and> md ! i \<noteq> Fin (- 1) then min (md ! i) (Fin (diff cur (H i))) else md ! i)"
      proof (cases "i = m")
        case True
        then show ?thesis using False len' mlt by (simp add: md2_def v_def)
      next
        case ne: False
        then have "md2 ! i = md' ! i" by (simp add: md2_def)
        moreover have "i < Suc m \<longleftrightarrow> i < m" using ne by auto
        ultimately show ?thesis using vals i by simp
      qed
    qed
    have md2_old: "\<forall>i<m. md2 ! i = md' ! i" by (simp add: md2_def)
    have md2_m: "md2 ! m = v" using mlt len' by (simp add: md2_def)
    have one: "scan_candidates diff hash_dict fps cur [m] (md', mx, nxt)
                 = (if mx < v then Inr (md2, v, Some m) else Inr (md2, mx, nxt))"
      using scan_single [of md' m hash_dict fps "H m" diff cur mx nxt] False lk mlt len'
      unfolding md2_def v_def md'm by simp
    show ?thesis
    proof (cases "mx < v")
      case True
      have step: "scan_candidates diff hash_dict fps cur [0..<Suc m] (md, NInf, None)
                    = Inr (md2, v, Some m)"
        using True upt_Suc_append [of 0 m] by (simp add: scan_append run one del: scan_candidates.simps)
      have bound: "\<forall>i<m. md ! i \<noteq> Fin (- 1) \<longrightarrow> md' ! i < v"
      proof (intro allI impI)
        fix i assume i: "i < m" "md ! i \<noteq> Fin (- 1)"
        then obtain j where "nxt = Some j" using none by (cases nxt) auto
        with some i have "md' ! i \<le> mx" by auto
        with True show "md' ! i < v" by simp
      qed
      show ?thesis
        unfolding step using md2_len md2_vals md2_old md2_m bound False
        by (auto simp: less_Suc_eq)
    next
      case nless: False
      have step: "scan_candidates diff hash_dict fps cur [0..<Suc m] (md, NInf, None)
                    = Inr (md2, mx, nxt)"
        using nless upt_Suc_append [of 0 m] by (simp add: scan_append run one del: scan_candidates.simps)
      from nless vN have "mx \<noteq> NInf" by (auto simp: NInf_less_iff)
      with none obtain j where j: "nxt = Some j" by (cases nxt) auto
      from some j have jp: "j < m" "md ! j \<noteq> Fin (- 1)" "mx = md' ! j"
        "\<forall>i<m. md ! i \<noteq> Fin (- 1) \<longrightarrow> md' ! i \<le> mx \<and> (i < j \<longrightarrow> md' ! i < mx)"
        by auto
      have vle: "v \<le> mx" using nless by simp
      show ?thesis
        unfolding step using md2_len md2_vals md2_old md2_m jp j vle
        by (auto simp: less_Suc_eq)
    qed
  qed
qed

subsection \<open>The loop invariant\<close>

lemma spec_min_snoc:
  "spec_min_distance D (xs @ [s]) i = min (spec_min_distance D xs i) (Fin (D s i))"
  by (induction xs) (auto simp: min.assoc min.commute min.left_commute)

lemma spec_min_nonneg:
  assumes "\<forall>s i. 0 \<le> D s i"
  shows "Fin 0 \<le> spec_min_distance D xs i"
  using assms by (induction xs) auto

lemma spec_min_not_marker:
  assumes "\<forall>s i. 0 \<le> D s i"
  shows "spec_min_distance D xs i \<noteq> Fin (- 1)" "spec_min_distance D xs i \<noteq> NInf"
  using spec_min_nonneg [OF assms, of xs i]
  by (cases "spec_min_distance D xs i"; simp)+

lemma init_inv:
  assumes "first < n"
  shows "greedy_inv D n ((replicate n PInf)[first := Fin (- 1)], [first], [PInf])"
  using assms by (auto simp: greedy_inv_def nth_list_update)

lemma full_selection:
  assumes "distinct sel" "\<forall>s\<in>set sel. s < n" "\<forall>i<n. i \<in> set sel"
  shows "length sel = n"
proof -
  have "set sel = {..<n}" using assms by auto
  then have "card (set sel) = n" by simp
  then show ?thesis using assms(1) by (simp add: distinct_card)
qed

lemma partial_selection:
  assumes "distinct sel" "\<forall>s\<in>set sel. s < n" "j < n" "j \<notin> set sel"
  shows "length sel < n"
proof -
  have "set sel \<subseteq> {..<n} - {j}" using assms by auto
  then have "card (set sel) \<le> card ({..<n} - {j})" by (intro card_mono) auto
  also have "\<dots> < n" using assms(3) by simp
  finally show ?thesis using assms(1) by (simp add: distinct_card)
qed

lemma farthest_point_pick_cong:
  assumes "sel' ! t = sel ! t" "sc' ! t = sc ! t" "take t sel' = take t sel"
  shows "farthest_point_pick D n sel' sc' t = farthest_point_pick D n sel sc t"
  by (simp add: farthest_point_pick_def assms)

lemma round_step:
  assumes LK: "\<forall>i<length fps. map_of hash_dict (fps ! i) = Some (H i)"
    and DH: "\<forall>s<length fps. \<forall>i<length fps. D s i = diff (H s) (H i)"
    and Dn: "\<forall>s i. 0 \<le> D s i"
    and inv: "greedy_inv D (length fps) (md, sel, sc)"
  shows "\<exists>md' mx nxt.
     scan_candidates diff hash_dict fps (H (last sel)) [0..<length fps] (md, NInf, None)
       = Inr (md', mx, nxt)
     \<and> (nxt = None \<longrightarrow> length sel = length fps \<and> greedy_inv D (length fps) (md', sel, sc))
     \<and> (\<forall>j. nxt = Some j \<longrightarrow> length sel < length fps
            \<and> greedy_inv D (length fps) (md'[j := Fin (- 1)], sel @ [j], sc @ [mx]))"
proof -
  let ?n = "length fps"
  from inv have len: "length md = ?n" and ne: "sel \<noteq> []" and dist: "distinct sel"
    and bnd: "\<forall>s\<in>set sel. s < ?n" and lsc: "length sc = length sel"
    and mdv: "\<forall>i<?n. md ! i = (if i \<in> set sel then Fin (- 1) else spec_min_distance D (butlast sel) i)"
    and picks: "\<forall>t. 1 \<le> t \<and> t < length sel \<longrightarrow> farthest_point_pick D ?n sel sc t"
    by (auto simp: greedy_inv_def)
  have marker: "\<forall>i<?n. md ! i = Fin (- 1) \<longleftrightarrow> i \<in> set sel"
    using mdv spec_min_not_marker(1) [OF Dn] by auto
  have noN: "NInf \<notin> set md"
  proof
    assume "NInf \<in> set md"
    then obtain i where "i < ?n" "md ! i = NInf" using len by (auto simp: in_set_conv_nth)
    with mdv spec_min_not_marker(2) [OF Dn] show False by (auto split: if_splits)
  qed
  have lastlt: "last sel < ?n" using ne bnd by simp
  from scan_prefix [OF LK len noN order_refl, of diff "H (last sel)"]
  obtain md' mx nxt where
    run: "scan_candidates diff hash_dict fps (H (last sel)) [0..<?n] (md, NInf, None) = Inr (md', mx, nxt)"
    and len': "length md' = ?n"
    and vals: "\<forall>i<?n. md' ! i =
           (if i < ?n \<and> md ! i \<noteq> Fin (- 1) then min (md ! i) (Fin (diff (H (last sel)) (H i))) else md ! i)"
    and none: "nxt = None \<longrightarrow> mx = NInf \<and> (\<forall>i<?n. md ! i = Fin (- 1))"
    and some: "\<forall>j. nxt = Some j \<longrightarrow> j < ?n \<and> md ! j \<noteq> Fin (- 1) \<and> mx = md' ! j
           \<and> (\<forall>i<?n. md ! i \<noteq> Fin (- 1) \<longrightarrow> md' ! i \<le> mx \<and> (i < j \<longrightarrow> md' ! i < mx))"
    by blast
  have sel_split: "butlast sel @ [last sel] = sel" using ne by simp
  have smd: "\<And>i. spec_min_distance D sel i
               = min (spec_min_distance D (butlast sel) i) (Fin (D (last sel) i))"
    using spec_min_snoc [of D "butlast sel" "last sel"] sel_split by simp
  have vals': "\<forall>i<?n. md' ! i = (if i \<in> set sel then Fin (- 1) else spec_min_distance D sel i)"
  proof (intro allI impI)
    fix i assume i: "i < ?n"
    show "md' ! i = (if i \<in> set sel then Fin (- 1) else spec_min_distance D sel i)"
    proof (cases "i \<in> set sel")
      case True
      then show ?thesis using vals marker i by simp
    next
      case False
      then have "md ! i \<noteq> Fin (- 1)" using marker i by simp
      then have "md' ! i = min (md ! i) (Fin (diff (H (last sel)) (H i)))"
        using vals i by simp
      also have "md ! i = spec_min_distance D (butlast sel) i" using mdv i False by simp
      also have "diff (H (last sel)) (H i) = D (last sel) i" using DH lastlt i by simp
      finally show ?thesis using False smd by simp
    qed
  qed
  have A: "nxt = None \<longrightarrow> length sel = ?n \<and> greedy_inv D ?n (md', sel, sc)"
  proof
    assume n: "nxt = None"
    with none marker have all: "\<forall>i<?n. i \<in> set sel" by simp
    have full: "length sel = ?n" using full_selection [OF dist bnd all] .
    have "\<forall>i<?n. md' ! i = (if i \<in> set sel then Fin (- 1) else spec_min_distance D (butlast sel) i)"
      using vals' all by simp
    then have "greedy_inv D ?n (md', sel, sc)"
      using len' ne dist bnd lsc picks by (simp add: greedy_inv_def)
    with full show "length sel = ?n \<and> greedy_inv D ?n (md', sel, sc)" by simp
  qed
  have B: "\<forall>j. nxt = Some j \<longrightarrow> length sel < ?n
            \<and> greedy_inv D ?n (md'[j := Fin (- 1)], sel @ [j], sc @ [mx])"
  proof (intro allI impI)
    fix j assume j: "nxt = Some j"
    with some have jn: "j < ?n" and jm: "md ! j \<noteq> Fin (- 1)" and mxj: "mx = md' ! j"
      and best: "\<forall>i<?n. md ! i \<noteq> Fin (- 1) \<longrightarrow> md' ! i \<le> mx \<and> (i < j \<longrightarrow> md' ! i < mx)"
      by auto
    have jsel: "j \<notin> set sel" using jm marker jn by simp
    have short: "length sel < ?n" using partial_selection [OF dist bnd jn jsel] .
    have mx_val: "mx = spec_min_distance D sel j" using mxj vals' jn jsel by simp
    have best': "\<forall>i<?n. i \<notin> set sel \<longrightarrow>
        spec_min_distance D sel i \<le> mx \<and> (i < j \<longrightarrow> spec_min_distance D sel i < mx)"
      using best marker vals' by auto
    have new_pick: "farthest_point_pick D ?n (sel @ [j]) (sc @ [mx]) (length sel)"
      using jn jsel mx_val best' lsc by (simp add: farthest_point_pick_def nth_append)
    have old_picks: "\<forall>t. 1 \<le> t \<and> t < length sel \<longrightarrow> farthest_point_pick D ?n (sel @ [j]) (sc @ [mx]) t"
    proof (intro allI impI)
      fix t assume t: "1 \<le> t \<and> t < length sel"
      with picks have old: "farthest_point_pick D ?n sel sc t" by blast
      have "(sel @ [j]) ! t = sel ! t" "(sc @ [mx]) ! t = sc ! t"
        "take t (sel @ [j]) = take t sel"
        using t lsc by (simp_all add: nth_append)
      from farthest_point_pick_cong [OF this] old
      show "farthest_point_pick D ?n (sel @ [j]) (sc @ [mx]) t" by simp
    qed
    have all_picks: "\<forall>t. 1 \<le> t \<and> t < length (sel @ [j]) \<longrightarrow> farthest_point_pick D ?n (sel @ [j]) (sc @ [mx]) t"
      using new_pick old_picks by (auto simp: less_Suc_eq)
    have mdv2: "\<forall>i<?n. md'[j := Fin (- 1)] ! i =
        (if i \<in> set (sel @ [j]) then Fin (- 1) else spec_min_distance D (butlast (sel @ [j])) i)"
    proof (intro allI impI)
      fix i assume i: "i < ?n"
      show "md'[j := Fin (- 1)] ! i =
        (if i \<in> set (sel @ [j]) then Fin (- 1) else spec_min_distance D (butlast (sel @ [j])) i)"
      proof (cases "i = j")
        case True
        then show ?thesis using len' jn by simp
      next
        case False
        then have "md'[j := Fin (- 1)] ! i = md' ! i" by simp
        then show ?thesis using vals' i False by simp
      qed
    qed
    have "greedy_inv D ?n (md'[j := Fin (- 1)], sel @ [j], sc @ [mx])"
      unfolding greedy_inv_def using len' dist bnd lsc jn jsel mdv2 all_picks by simp
    with short show "length sel < ?n \<and> greedy_inv D ?n (md'[j := Fin (- 1)], sel @ [j], sc @ [mx])"
      by simp
  qed
  from run A B show ?thesis by blast
qed

lemma rounds_inv:
  assumes LK: "\<forall>i<length fps. map_of hash_dict (fps ! i) = Some (H i)"
    and DH: "\<forall>s<length fps. \<forall>i<length fps. D s i = diff (H s) (H i)"
    and Dn: "\<forall>s i. 0 \<le> D s i"
  shows "greedy_inv D (length fps) (md, sel, sc) \<Longrightarrow>
    \<exists>md' sel' sc'. select_rounds diff hash_dict fps r (md, sel, sc) = Inr (md', sel', sc')
      \<and> greedy_inv D (length fps) (md', sel', sc')
      \<and> length sel' = min (length sel + r) (length fps)
      \<and> take (length sel) sel' = sel \<and> take (length sc) sc' = sc"
proof (induction r arbitrary: md sel sc)
  case 0
  then have "length sel \<le> length fps"
    using distinct_card [of sel] card_mono [of "{..<length fps}" "set sel"]
    by (auto simp: greedy_inv_def)
  with 0 show ?case by simp
next
  case (Suc r)
  from Suc.prems have ne: "sel \<noteq> []" and bnd: "\<forall>s\<in>set sel. s < length fps"
    and lsc: "length sc = length sel"
    by (auto simp: greedy_inv_def)
  then have "last sel < length fps" by simp
  with LK have lk: "map_of hash_dict (fps ! last sel) = Some (H (last sel))" by simp
  from round_step [OF LK DH Dn Suc.prems] obtain md' mx nxt where
    run: "scan_candidates diff hash_dict fps (H (last sel)) [0..<length fps] (md, NInf, None)
            = Inr (md', mx, nxt)"
    and A: "nxt = None \<longrightarrow> length sel = length fps \<and> greedy_inv D (length fps) (md', sel, sc)"
    and B: "\<forall>j. nxt = Some j \<longrightarrow> length sel < length fps
            \<and> greedy_inv D (length fps) (md'[j := Fin (- 1)], sel @ [j], sc @ [mx])"
    by blast
  show ?case
  proof (cases nxt)
    case None
    then have step: "select_rounds diff hash_dict fps (Suc r) (md, sel, sc)
                       = select_rounds diff hash_dict fps r (md', sel, sc)"
      by (simp add: lk run)
    from A None have full: "length sel = length fps"
      and inv': "greedy_inv D (length fps) (md', sel, sc)" by simp_all
    from Suc.IH [OF inv'] full show ?thesis unfolding step by auto
  next
    case (Some j)
    then have step: "select_rounds diff hash_dict fps (Suc r) (md, sel, sc)
                       = select_rounds diff hash_dict fps r
                           (md'[j := Fin (- 1)], sel @ [j], sc @ [mx])"
      by (simp add: lk run)
    from B Some have short: "length sel < length fps"
      and inv': "greedy_inv D (length fps) (md'[j := Fin (- 1)], sel @ [j], sc @ [mx])"
      by simp_all
    from Suc.IH [OF inv'] obtain md2 sel2 sc2 where
      res: "select_rounds diff hash_dict fps r (md'[j := Fin (- 1)], sel @ [j], sc @ [mx])
              = Inr (md2, sel2, sc2)"
      and inv2: "greedy_inv D (length fps) (md2, sel2, sc2)"
      and len2: "length sel2 = min (length (sel @ [j]) + r) (length fps)"
      and pre: "take (length (sel @ [j])) sel2 = sel @ [j]"
      and pre_sc: "take (length (sc @ [mx])) sc2 = sc @ [mx]"
      by blast
    have "take (length sel) (take (length (sel @ [j])) sel2) = take (length sel) sel2"
      by (simp add: min_def)
    with pre have p1: "take (length sel) sel2 = sel" by simp
    have "take (length sc) (take (length (sc @ [mx])) sc2) = take (length sc) sc2"
      by (simp add: min_def)
    with pre_sc have p2: "take (length sc) sc2 = sc" by simp
    from res inv2 len2 p1 p2 show ?thesis unfolding step by simp
  qed
qed

lemma cand_distance_nonneg:
  assumes "\<forall>a b. 0 \<le> diff a b"
  shows "\<forall>s i. 0 \<le> cand_distance diff hash_dict fps s i"
  using assms by (simp add: cand_distance_def split: option.splits)

lemma lookups_total:
  assumes "set fps \<subseteq> fst ` set hash_dict"
  shows "\<forall>i<length fps. map_of hash_dict (fps ! i) = Some (the (map_of hash_dict (fps ! i)))"
proof (intro allI impI)
  fix i assume "i < length fps"
  then have "fps ! i \<in> fst ` set hash_dict" using assms by auto
  then have "map_of hash_dict (fps ! i) \<noteq> None" by (simp add: map_of_eq_None_iff)
  then show "map_of hash_dict (fps ! i) = Some (the (map_of hash_dict (fps ! i)))" by simp
qed

lemma greedy_selection_inv:
  assumes run: "greedy_selection diff rng g hash_dict fps k = Inr (sel, scores)"
    and keys: "set fps \<subseteq> fst ` set hash_dict"
    and nonneg: "\<forall>a b. 0 \<le> diff a b"
  shows "\<exists>md. greedy_inv (cand_distance diff hash_dict fps) (length fps) (md, sel, scores)
     \<and> length sel = min (1 + nat (k - 1)) (length fps)
     \<and> take 1 sel = [nat (randint rng g 0 (int (length fps) - 1))]
     \<and> take 1 scores = [PInf]"
proof -
  let ?n = "length fps"
  let ?r = "randint rng g 0 (int ?n - 1)"
  let ?H = "\<lambda>i. the (map_of hash_dict (fps ! i))"
  let ?D = "cand_distance diff hash_dict fps"
  from run have n0: "?n \<noteq> 0" and r: "0 \<le> ?r" "?r < int ?n"
    by (auto simp: greedy_selection_def Let_def split: if_splits)
  then have first: "nat ?r < ?n" by simp
  have LK: "\<forall>i<?n. map_of hash_dict (fps ! i) = Some (?H i)"
    using lookups_total [OF keys] .
  have DH: "\<forall>s<?n. \<forall>i<?n. ?D s i = diff (?H s) (?H i)"
  proof (intro allI impI)
    fix s i assume "s < ?n" "i < ?n"
    with LK obtain a b where "map_of hash_dict (fps ! s) = Some a" "map_of hash_dict (fps ! i) = Some b"
      by blast
    then show "?D s i = diff (?H s) (?H i)"
      by (simp add: cand_distance_def)
  qed
  have Dn: "\<forall>s i. 0 \<le> ?D s i" using cand_distance_nonneg [OF nonneg] .
  from rounds_inv [OF LK DH Dn init_inv [OF first], of "nat (k - 1)"]
  obtain md' sel' sc' where
    res: "select_rounds diff hash_dict fps (nat (k - 1))
            ((replicate ?n PInf)[nat ?r := Fin (- 1)], [nat ?r], [PInf]) = Inr (md', sel', sc')"
    and inv: "greedy_inv ?D ?n (md', sel', sc')"
    and len: "length sel' = min (length [nat ?r] + nat (k - 1)) ?n"
    and p1: "take (length [nat ?r]) sel' = [nat ?r]"
    and p2: "take (length [PInf]) sc' = [PInf]"
    by blast
  from run n0 r res have "sel = sel'" "scores = sc'"
    by (auto simp: greedy_selection_def Let_def)
  with inv len p1 p2 show ?thesis by auto
qed

text \<open>With a generator that stays in range, the greedy selection does not fail.\<close>

lemma greedy_selection_total:
  assumes keys: "set fps \<subseteq> fst ` set hash_dict"
    and nonneg: "\<forall>a b. 0 \<le> diff a b"
    and ne: "fps \<noteq> []"
    and r: "0 \<le> randint rng g 0 (int (length fps) - 1)"
           "randint rng g 0 (int (length fps) - 1) < int (length fps)"
  shows "\<exists>sel scores. greedy_selection diff rng g hash_dict fps k = Inr (sel, scores)"
proof -
  let ?n = "length fps"
  let ?r = "randint rng g 0 (int ?n - 1)"
  let ?H = "\<lambda>i. the (map_of hash_dict (fps ! i))"
  let ?D = "cand_distance diff hash_dict fps"
  from r have first: "nat ?r < ?n" by simp
  have LK: "\<forall>i<?n. map_of hash_dict (fps ! i) = Some (?H i)"
    using lookups_total [OF keys] .
  have DH: "\<forall>s<?n. \<forall>i<?n. ?D s i = diff (?H s) (?H i)"
  proof (intro allI impI)
    fix s i assume "s < ?n" "i < ?n"
    with LK obtain a b where "map_of hash_dict (fps ! s) = Some a" "map_of hash_dict (fps ! i) = Some b"
      by blast
    then show "?D s i = diff (?H s) (?H i)"
      by (simp add: cand_distance_def)
  qed
  have Dn: "\<forall>s i. 0 \<le> ?D s i" using cand_distance_nonneg [OF nonneg] .
  from rounds_inv [OF LK DH Dn init_inv [OF first], of "nat (k - 1)"]
  obtain md' sel' sc' where
    "select_rounds diff hash_dict fps (nat (k - 1))
            ((replicate ?n PInf)[nat ?r := Fin (- 1)], [nat ?r], [PInf]) = Inr (md', sel', sc')"
    by blast
  with ne r show ?thesis by (simp add: greedy_selection_def Let_def)
qed

subsection \<open>From candidate positions to input positions\<close>

lemma fold_update_distinct:
  "distinct (map fst d) \<Longrightarrow> distinct (map fst (fold (\<lambda>(k, v) d. AList.update k v d) kvs d))"
  by (induction kvs arbitrary: d) (auto simp: distinct_update)

lemma check_cache_distinct:
  "check_cache env fps (d, ftc) cm = (Inr (d', ftc'), cm') \<Longrightarrow> distinct (map fst d)
    \<Longrightarrow> distinct (map fst d')"
proof (induction fps arbitrary: d ftc cm)
  case Nil
  then show ?case by simp
next
  case (Cons p fps)
  obtain r cm1 where g: "cache_get env cm p = (r, cm1)" by (cases "cache_get env cm p")
  show ?case
  proof (cases r)
    case (Inl err)
    with Cons.prems g show ?thesis by simp
  next
    case (Inr v)
    show ?thesis
    proof (cases v)
      case None
      with Cons.prems g Inr Cons.IH show ?thesis by simp
    next
      case (Some h)
      with Cons.prems g Inr Cons.IH show ?thesis
        by (cases "h = []") (auto simp: distinct_update)
    qed
  qed
qed

lemma compute_or_load_distinct:
  assumes "compute_or_load_hashes env self fps = (Inr hdict, cmo)"
  shows "distinct (map fst hdict)"
proof (cases "sel_cache_manager self")
  case None
  with assms show ?thesis
    by (auto simp: compute_or_load_hashes_def Let_def fold_update_distinct
          split: if_splits sum.splits)
next
  case (Some cm)
  obtain r cm1 where cc: "check_cache env fps ([], []) cm = (r, cm1)"
    by (cases "check_cache env fps ([], []) cm")
  show ?thesis
  proof (cases r)
    case (Inl err)
    with assms Some cc show ?thesis by (simp add: compute_or_load_hashes_def)
  next
    case (Inr st)
    obtain d ftc where st: "st = (d, ftc)" by (cases st)
    from cc Inr st have "distinct (map fst d)" using check_cache_distinct by fastforce
    with assms Some cc Inr st show ?thesis
      by (auto simp: compute_or_load_hashes_def Let_def fold_update_distinct
            split: if_splits sum.splits prod.splits)
  qed
qed

lemma list_index_Some:
  "list_index xs x = Some i \<Longrightarrow> i < length xs \<and> xs ! i = x \<and> (\<forall>j<i. xs ! j \<noteq> x)"
proof (induction xs arbitrary: i)
  case Nil
  then show ?case by simp
next
  case (Cons y ys)
  show ?case
  proof (cases "y = x")
    case True
    with Cons.prems show ?thesis by simp
  next
    case False
    with Cons.prems obtain i' where i': "list_index ys x = Some i'" "i = Suc i'" by auto
    from Cons.IH [OF i'(1)] have IH: "i' < length ys" "ys ! i' = x" "\<forall>j<i'. ys ! j \<noteq> x" by auto
    show ?thesis using False IH i'(2) by (auto simp: nth_Cons split: nat.splits)
  qed
qed

lemma those_map_Some:
  "those (map f xs) = Some ys \<Longrightarrow> length ys = length xs \<and> (\<forall>t<length xs. f (xs ! t) = Some (ys ! t))"
proof (induction xs arbitrary: ys)
  case Nil
  then show ?case by simp
next
  case (Cons x xs)
  then obtain y ys' where y: "f x = Some y" "those (map f xs) = Some ys'" "ys = y # ys'"
    by (auto split: option.splits)
  from Cons.IH [OF y(2)] show ?case using y by (auto simp: nth_Cons split: nat.splits)
qed

lemma select_success:
  assumes "select env diff rng g0 self fps k rs = (Inr res, self')"
  shows "\<exists>hdict cmo sel scores.
     compute_or_load_hashes env self fps = (Inr hdict, cmo)
     \<and> \<not> int (length hdict) < k
     \<and> greedy_selection diff rng (case rs of None \<Rightarrow> g0 | Some s \<Rightarrow> seed rng s)
          hdict (map fst hdict) k = Inr (sel, scores)
     \<and> those (map (\<lambda>idx. list_index fps (map fst hdict ! idx)) sel) = Some (res_indices res)
     \<and> res_diversity_scores res = (if scores \<noteq> [] then Some scores else None)
     \<and> res_file_paths res = map (\<lambda>i. fps ! i) (res_indices res)"
proof -
  let ?g = "case rs of None \<Rightarrow> g0 | Some s \<Rightarrow> seed rng s"
  obtain r cmo where c0: "compute_or_load_hashes env self fps = (r, cmo)"
    by (cases "compute_or_load_hashes env self fps")
  with assms obtain hdict where c: "compute_or_load_hashes env self fps = (Inr hdict, cmo)"
    by (cases r) (auto simp: select_def Let_def)
  have ge: "\<not> int (length hdict) < k"
    using assms c by (auto simp: select_def Let_def split: if_splits)
  obtain sel scores where g: "greedy_selection diff rng ?g hdict (map fst hdict) k = Inr (sel, scores)"
    using assms c ge
    by (cases "greedy_selection diff rng ?g hdict (map fst hdict) k") (auto simp: select_def Let_def)
  obtain oi where oi: "those (map (\<lambda>idx. list_index fps (map fst hdict ! idx)) sel) = Some oi"
    using assms c ge g
    by (cases "those (map (\<lambda>idx. list_index fps (map fst hdict ! idx)) sel)")
       (auto simp: select_def Let_def)
  have "res = \<lparr>res_indices = oi, res_file_paths = map (\<lambda>i. fps ! i) oi,
                res_hashes = (if cmo \<noteq> None then Some hdict else None),
                res_diversity_scores = (if scores \<noteq> [] then Some scores else None)\<rparr>"
    using assms c ge g oi by (simp add: select_def Let_def)
  then have "res_indices res = oi"
    "res_diversity_scores res = (if scores \<noteq> [] then Some scores else None)"
    "res_file_paths res = map (\<lambda>i. fps ! i) (res_indices res)"
    by simp_all
  with c ge g oi show ?thesis by blast
qed

lemma rounds_prefix:
  "select_rounds diff hash_dict fps r (md, sel, sc) = Inr (md', sel', sc')
     \<Longrightarrow> take (length sc) sc' = sc \<and> take (length sel) sel' = sel"
proof (induction r arbitrary: md sel sc)
  case 0
  then show ?case by simp
next
  case (Suc r)
  from Suc.prems obtain cur md1 mx nxt where
    scan: "scan_candidates diff hash_dict fps cur [0..<length fps] (md, NInf, None) = Inr (md1, mx, nxt)"
    and rest: "(case nxt of
          None \<Rightarrow> select_rounds diff hash_dict fps r (md1, sel, sc)
        | Some j \<Rightarrow> select_rounds diff hash_dict fps r (md1[j := Fin (- 1)], sel @ [j], sc @ [mx]))
        = Inr (md', sel', sc')"
    by (auto split: option.splits sum.splits)
  show ?case
  proof (cases nxt)
    case None
    with rest Suc.IH show ?thesis by simp
  next
    case (Some j)
    with rest have "select_rounds diff hash_dict fps r (md1[j := Fin (- 1)], sel @ [j], sc @ [mx])
       = Inr (md', sel', sc')" by simp
    from Suc.IH [OF this] have a: "take (length (sc @ [mx])) sc' = sc @ [mx]"
      and b: "take (length (sel @ [j])) sel' = sel @ [j]" by simp_all
    have "take (length sc) (take (length (sc @ [mx])) sc') = take (length sc) sc'"
      by (simp add: min_def)
    with a have p1: "take (length sc) sc' = sc" by simp
    have "take (length sel) (take (length (sel @ [j])) sel') = take (length sel) sel'"
      by (simp add: min_def)
    with b have p2: "take (length sel) sel' = sel" by simp
    from p1 p2 show ?thesis by simp
  qed
qed

lemma greedy_first_score:
  assumes "greedy_selection diff rng g hash_dict fps k = Inr (sel, scores)"
  shows "scores \<noteq> [] \<and> scores ! 0 = PInf"
proof -
  from assms obtain md' where
    "select_rounds diff hash_dict fps (nat (k - 1))
       ((replicate (length fps) PInf)[nat (randint rng g 0 (int (length fps) - 1)) := Fin (- 1)],
        [nat (randint rng g 0 (int (length fps) - 1))], [PInf]) = Inr (md', sel, scores)"
    by (auto simp: greedy_selection_def Let_def split: if_splits sum.splits)
  from rounds_prefix [OF this] have "take 1 scores = [PInf]" by simp
  then show ?thesis by (cases scores) auto
qed

lemma spec_min_zero:
  assumes "\<forall>s i. D s i = 0" "xs \<noteq> []"
  shows "spec_min_distance D xs i = Fin 0"
  using assms
proof (induction xs)
  case Nil
  then show ?case by simp
next
  case (Cons s xs)
  then show ?case by (cases "xs = []") simp_all
qed

lemma greedy_scores_nonincreasing:
  assumes inv: "greedy_inv D n (md, sel, sc)" and t: "1 \<le> t" "Suc t < length sel"
  shows "sc ! Suc t \<le> sc ! t"
proof -
  from inv have dist: "distinct sel" and bnd: "\<forall>s\<in>set sel. s < n"
    and picks: "\<forall>t. 1 \<le> t \<and> t < length sel \<longrightarrow> farthest_point_pick D n sel sc t"
    by (auto simp: greedy_inv_def)
  from picks t have pt: "farthest_point_pick D n sel sc t"
    and ps: "farthest_point_pick D n sel sc (Suc t)" by auto
  let ?j = "sel ! Suc t"
  have tk: "take (Suc t) sel = take t sel @ [sel ! t]"
    using t by (simp add: take_Suc_conv_app_nth)
  from ps have jn: "?j < n" and jnew: "?j \<notin> set (take (Suc t) sel)"
    and sc1: "sc ! Suc t = spec_min_distance D (take (Suc t) sel) ?j"
    by (auto simp: farthest_point_pick_def)
  from jnew tk have jold: "?j \<notin> set (take t sel)" by simp
  have "sc ! Suc t \<le> spec_min_distance D (take t sel) ?j"
    unfolding sc1 tk spec_min_snoc by simp
  also have "\<dots> \<le> sc ! t"
    using pt jn jold by (auto simp: farthest_point_pick_def)
  finally show ?thesis .
qed

lemma original_indices:
  assumes th: "those (map (\<lambda>idx. list_index fps (vp ! idx)) sel) = Some oi"
    and dvp: "distinct vp" and dsel: "distinct sel" and bnd: "\<forall>s\<in>set sel. s < length vp"
  shows "length oi = length sel \<and> distinct oi
     \<and> (\<forall>i\<in>set oi. i < length fps \<and> (\<forall>j<i. fps ! j \<noteq> fps ! i))
     \<and> distinct (map (\<lambda>i. fps ! i) oi)"
proof -
  from those_map_Some [OF th] have len: "length oi = length sel"
    and each: "\<forall>t<length sel. list_index fps (vp ! (sel ! t)) = Some (oi ! t)" by simp_all
  have pos: "\<forall>t<length sel. oi ! t < length fps \<and> fps ! (oi ! t) = vp ! (sel ! t)
                \<and> (\<forall>j<oi ! t. fps ! j \<noteq> fps ! (oi ! t))"
  proof (intro allI impI)
    fix t assume "t < length sel"
    with each have "list_index fps (vp ! (sel ! t)) = Some (oi ! t)" by simp
    from list_index_Some [OF this]
    show "oi ! t < length fps \<and> fps ! (oi ! t) = vp ! (sel ! t)
                \<and> (\<forall>j<oi ! t. fps ! j \<noteq> fps ! (oi ! t))" by simp
  qed
  have inj: "\<forall>t<length sel. \<forall>u<length sel. t \<noteq> u \<longrightarrow> vp ! (sel ! t) \<noteq> vp ! (sel ! u)"
  proof (intro allI impI)
    fix t u assume tu: "t < length sel" "u < length sel" "t \<noteq> u"
    then have "sel ! t \<noteq> sel ! u" using dsel by (simp add: nth_eq_iff_index_eq)
    moreover have "sel ! t < length vp" "sel ! u < length vp" using bnd tu by simp_all
    ultimately show "vp ! (sel ! t) \<noteq> vp ! (sel ! u)" using dvp by (simp add: nth_eq_iff_index_eq)
  qed
  have dpaths: "distinct (map (\<lambda>i. fps ! i) oi)"
    unfolding distinct_conv_nth using pos inj len by simp
  then have doi: "distinct oi" by (simp add: distinct_map)
  have "\<forall>i\<in>set oi. i < length fps \<and> (\<forall>j<i. fps ! j \<noteq> fps ! i)"
  proof
    fix i assume "i \<in> set oi"
    then obtain t where "t < length sel" "oi ! t = i" using len by (auto simp: in_set_conv_nth)
    with pos show "i < length fps \<and> (\<forall>j<i. fps ! j \<noteq> fps ! i)" by blast
  qed
  with len doi dpaths show ?thesis by simp
qed

subsection \<open>An example run\<close>

lemma ex_select_run:
  "select ex_env ex_diff ex_rng 0 ex_selector [''a'', ''b'', ''c''] 3 (Some 0)
     = (Inr ex_result, ex_selector_after)"
  by code_simp

lemma ex_diff_nonneg: "\<forall>a b. 0 \<le> ex_diff a b"
  by (simp add: ex_diff_def)

section \<open>The claims about the greedy selection\<close>

text \<open>
  What holds inside \<open>_greedy_selection\<close>, where a position is a position in the candidate
  list that the function is given. In every round \<open>t \<ge> 1\<close> of a successful run, over hashes
  with non-negative distances, the pick is an unselected candidate whose minimum distance
  to the picks before it is maximal among the unselected candidates, its score is that
  distance, and every unselected candidate at a lower position of the candidate list has
  a strictly smaller minimum distance (so a tie goes to the lower position in that list).
  For ten candidates at distance \<open>|i - j|\<close> and first pick 0, three picks are 0, 9, 4 with
  scores \<open>inf\<close>, 9, 4.
\<close>

lemma greedy_picks_farthest_candidate:
  "(greedy_selection diff rng g hash_dict fps k = Inr (sel, scores)
      \<and> set fps \<subseteq> fst ` set hash_dict \<and> (\<forall>a b. 0 \<le> diff a b) \<and> 1 \<le> t \<and> t < length sel
      \<longrightarrow> farthest_point_pick (cand_distance diff hash_dict fps) (length fps) sel scores t)
   \<and> (\<forall>i\<in>set [0..<10]. \<forall>j\<in>set [0..<10].
         cand_distance ex_diff line_dict line_paths i j = \<bar>int i - int j\<bar>)
   \<and> greedy_selection ex_diff ex_rng 0 line_dict line_paths 3
         = Inr ([0, 9, 4], [PInf, Fin 9, Fin 4])"
proof (intro conjI impI)
  assume a: "greedy_selection diff rng g hash_dict fps k = Inr (sel, scores)
      \<and> set fps \<subseteq> fst ` set hash_dict \<and> (\<forall>a b. 0 \<le> diff a b) \<and> 1 \<le> t \<and> t < length sel"
  then have run: "greedy_selection diff rng g hash_dict fps k = Inr (sel, scores)"
    and keys: "set fps \<subseteq> fst ` set hash_dict" and nonneg: "\<forall>a b. 0 \<le> diff a b"
    and t: "1 \<le> t \<and> t < length sel" by simp_all
  from greedy_selection_inv [OF run keys nonneg] obtain md where
    "greedy_inv (cand_distance diff hash_dict fps) (length fps) (md, sel, scores)" by blast
  with t show "farthest_point_pick (cand_distance diff hash_dict fps) (length fps) sel scores t"
    by (simp add: greedy_inv_def)
next
  show "\<forall>i\<in>set [0..<10]. \<forall>j\<in>set [0..<10].
         cand_distance ex_diff line_dict line_paths i j = \<bar>int i - int j\<bar>"
    by code_simp
next
  show "greedy_selection ex_diff ex_rng 0 line_dict line_paths 3
         = Inr ([0, 9, 4], [PInf, Fin 9, Fin 4])"
    by code_simp
qed

lemma greedy_picks_farthest_candidate_example:
  "farthest_point_pick (cand_distance ex_diff line_dict line_paths) 10
     [0, 9, 4] [PInf, Fin 9, Fin 4] 2"
proof -
  have run: "greedy_selection ex_diff ex_rng 0 line_dict line_paths 3
         = Inr ([0, 9, 4], [PInf, Fin 9, Fin 4])"
    by code_simp
  have keys: "set line_paths \<subseteq> fst ` set line_dict" by code_simp
  have nonneg: "\<forall>a b. 0 \<le> ex_diff a b" by (simp add: ex_diff_def)
  have len: "length line_paths = 10" by (simp add: line_paths_def)
  from greedy_picks_farthest_candidate [of ex_diff ex_rng 0 line_dict line_paths 3
         "[0, 9, 4]" "[PInf, Fin 9, Fin 4]" 2] run keys nonneg len
  show ?thesis by simp
qed

text \<open>
  Claim C2. In the result of a successful \<open>select\<close>, over hashes with non-negative
  distances, the diversity scores from position 1 onward do not increase:
  \<open>scores[t + 1] \<le> scores[t]\<close> for every \<open>t \<ge> 1\<close>.
\<close>

theorem diversity_scores_nonincreasing:
  assumes run: "select env diff rng g0 self fps k rs = (Inr res, self')"
    and nonneg: "\<forall>a b. 0 \<le> diff a b"
    and sc: "res_diversity_scores res = Some scores"
    and t: "1 \<le> t" "Suc t < length scores"
  shows "scores ! Suc t \<le> scores ! t"
proof -
  from select_success [OF run] obtain hdict sel scores' where
    g: "greedy_selection diff rng (case rs of None \<Rightarrow> g0 | Some s \<Rightarrow> seed rng s)
          hdict (map fst hdict) k = Inr (sel, scores')"
    and sc': "res_diversity_scores res = (if scores' \<noteq> [] then Some scores' else None)"
    by blast
  from sc sc' have eq: "scores' = scores" by (simp split: if_splits)
  have keys: "set (map fst hdict) \<subseteq> fst ` set hdict" by simp
  from greedy_selection_inv [OF g keys nonneg] obtain md where
    inv: "greedy_inv (cand_distance diff hdict (map fst hdict)) (length (map fst hdict))
            (md, sel, scores')" by blast
  then have "length scores' = length sel" by (simp add: greedy_inv_def)
  with greedy_scores_nonincreasing [OF inv t(1)] t(2) eq show ?thesis by simp
qed

theorem diversity_scores_nonincreasing_witness:
  "select ex_env ex_diff ex_rng 0 ex_selector [''a'', ''b'', ''c''] 3 (Some 0)
     = (Inr ex_result, ex_selector_after)
   \<and> (\<forall>a b. 0 \<le> ex_diff a b)
   \<and> res_diversity_scores ex_result = Some [PInf, Fin 5, Fin 2]
   \<and> [PInf, Fin 5, Fin 2] ! Suc 1 \<le> [PInf, Fin 5, Fin 2] ! 1"
  using diversity_scores_nonincreasing [OF ex_select_run ex_diff_nonneg, of "[PInf, Fin 5, Fin 2]" 1]
    ex_select_run ex_diff_nonneg
  by (simp add: ex_result_def)

text \<open>
  Claim C7. Every successful \<open>select\<close> returns diversity scores, and the first of them is
  the sentinel \<open>inf\<close>.
\<close>

theorem first_score_is_sentinel:
  assumes "select env diff rng g0 self fps k rs = (Inr res, self')"
  shows "\<exists>scores. res_diversity_scores res = Some scores \<and> scores \<noteq> [] \<and> scores ! 0 = PInf"
proof -
  from select_success [OF assms] obtain hdict sel scores where
    g: "greedy_selection diff rng (case rs of None \<Rightarrow> g0 | Some s \<Rightarrow> seed rng s)
          hdict (map fst hdict) k = Inr (sel, scores)"
    and sc: "res_diversity_scores res = (if scores \<noteq> [] then Some scores else None)"
    by blast
  from greedy_first_score [OF g] sc show ?thesis by simp
qed

theorem first_score_is_sentinel_witness:
  "select ex_env ex_diff ex_rng 0 ex_selector [''a'', ''b'', ''c''] 3 (Some 0)
     = (Inr ex_result, ex_selector_after)
   \<and> (\<exists>scores. res_diversity_scores ex_result = Some scores \<and> scores \<noteq> [] \<and> scores ! 0 = PInf)"
  using first_score_is_sentinel [OF ex_select_run] ex_select_run
  by simp

section \<open>The claims about select\<close>

lemma ex_select_zero_run:
  "select ex_env (\<lambda>a b. 0) ex_rng 0 ex_selector [''a'', ''b'', ''c''] 3 (Some 0)
     = (Inr ex_zero_result, ex_selector_after)"
  by code_simp


lemma select_diverse_files_success:
  assumes "fst (select_diverse_files env diff rng g0 disk fps k cache_dir n_jobs rs) = Inr res"
  shows "1 \<le> k \<and> (\<exists>g selector selector1.
            select env diff rng g selector fps k rs = (Inr res, selector1))"
proof -
  let ?g = "case rs of None \<Rightarrow> g0 | Some s \<Rightarrow> seed rng s"
  from assms have k: "0 < k" "\<not> k > int (length fps)"
    by (auto simp: select_diverse_files_def split: if_splits)
  then obtain selector where i: "file_selector_init disk cache_dir n_jobs = Inr selector"
    using assms
    by (cases "file_selector_init disk cache_dir n_jobs") (auto simp: select_diverse_files_def Let_def)
  obtain r selector1 where s: "select env diff rng ?g selector fps k rs = (r, selector1)"
    by (cases "select env diff rng ?g selector fps k rs") auto
  with assms k i have "r = Inr res"
    by (simp add: select_diverse_files_def Let_def)
  with s k show ?thesis by auto
qed

lemma select_indices:
  assumes run: "select env diff rng g0 self fps k rs = (Inr res, self')"
    and nonneg: "\<forall>a b. 0 \<le> diff a b"
  shows "distinct (res_indices res)
     \<and> (\<forall>i\<in>set (res_indices res). i < length fps \<and> (\<forall>j<i. fps ! j \<noteq> fps ! i))
     \<and> distinct (res_file_paths res)
     \<and> (1 \<le> k \<longrightarrow> length (res_indices res) = nat k
          \<and> ((\<forall>a b. diff a b = 0) \<longrightarrow>
                res_diversity_scores res = Some (PInf # replicate (nat k - 1) (Fin 0))))"
proof -
  from select_success [OF run] obtain hdict cmo sel scores where
    c: "compute_or_load_hashes env self fps = (Inr hdict, cmo)"
    and ge: "\<not> int (length hdict) < k"
    and g: "greedy_selection diff rng (case rs of None \<Rightarrow> g0 | Some s \<Rightarrow> seed rng s)
          hdict (map fst hdict) k = Inr (sel, scores)"
    and th: "those (map (\<lambda>idx. list_index fps (map fst hdict ! idx)) sel) = Some (res_indices res)"
    and sc: "res_diversity_scores res = (if scores \<noteq> [] then Some scores else None)"
    and fp: "res_file_paths res = map (\<lambda>i. fps ! i) (res_indices res)"
    by blast
  let ?vp = "map fst hdict"
  let ?D = "cand_distance diff hdict ?vp"
  have dvp: "distinct ?vp" using compute_or_load_distinct [OF c] .
  have keys: "set ?vp \<subseteq> fst ` set hdict" by simp
  from greedy_selection_inv [OF g keys nonneg] obtain md where
    inv: "greedy_inv ?D (length ?vp) (md, sel, scores)"
    and len: "length sel = min (1 + nat (k - 1)) (length ?vp)"
    and first: "take 1 scores = [PInf]"
    by blast
  have lenk: "1 \<le> k \<Longrightarrow> length sel = nat k" using len ge by simp
  from inv have dsel: "distinct sel" and bnd: "\<forall>s\<in>set sel. s < length ?vp"
    and lsc: "length scores = length sel"
    and picks: "\<forall>t. 1 \<le> t \<and> t < length sel \<longrightarrow> farthest_point_pick ?D (length ?vp) sel scores t"
    by (auto simp: greedy_inv_def)
  from original_indices [OF th dvp dsel bnd]
  have oi: "length (res_indices res) = length sel" "distinct (res_indices res)"
    "\<forall>i\<in>set (res_indices res). i < length fps \<and> (\<forall>j<i. fps ! j \<noteq> fps ! i)"
    "distinct (map (\<lambda>i. fps ! i) (res_indices res))"
    by simp_all
  have deg: "1 \<le> k \<and> (\<forall>a b. diff a b = 0) \<longrightarrow>
          res_diversity_scores res = Some (PInf # replicate (nat k - 1) (Fin 0))"
  proof
    assume kz: "1 \<le> k \<and> (\<forall>a b. diff a b = 0)"
    then have k1: "1 \<le> k" and z: "\<forall>a b. diff a b = 0" by simp_all
    then have Dz: "\<forall>s i. ?D s i = 0" by (simp add: cand_distance_def split: option.splits)
    have "scores = PInf # replicate (nat k - 1) (Fin 0)"
    proof (rule nth_equalityI)
      show "length scores = length (PInf # replicate (nat k - 1) (Fin 0))"
        using lsc lenk [OF k1] k1 by simp
    next
      fix t assume t: "t < length scores"
      show "scores ! t = (PInf # replicate (nat k - 1) (Fin 0)) ! t"
      proof (cases t)
        case 0
        with first show ?thesis by (cases scores) auto
      next
        case (Suc u)
        with t lsc have "1 \<le> t \<and> t < length sel" by simp
        with picks have "scores ! t = spec_min_distance ?D (take t sel) (sel ! t)"
          by (simp add: farthest_point_pick_def)
        moreover have "take t sel \<noteq> []" using Suc t lsc by auto
        ultimately have "scores ! t = Fin 0" using spec_min_zero [OF Dz] by simp
        then show ?thesis using Suc t lsc lenk [OF k1] by simp
      qed
    qed
    with sc show "res_diversity_scores res = Some (PInf # replicate (nat k - 1) (Fin 0))"
      by simp
  qed
  from oi lenk fp deg show ?thesis by auto
qed

text \<open>
  Claim C6. A successful selection of \<open>k \<ge> 1\<close> files (a successful \<open>select_diverse_files\<close>
  always has \<open>k \<ge> 1\<close>), over hashes with non-negative distances, returns exactly \<open>k\<close>
  indices, pairwise distinct and all below the number of input paths; when every distance
  is 0 the diversity scores are \<open>inf\<close> followed by \<open>k - 1\<close> zeros.
\<close>

theorem select_returns_k_distinct_indices:
  assumes run: "(select env diff rng g0 self fps k rs = (Inr res, self') \<and> 1 \<le> k)
      \<or> fst (select_diverse_files env diff rng g0 disk fps k cache_dir n_jobs rs) = Inr res"
    and nonneg: "\<forall>a b. 0 \<le> diff a b"
  shows "length (res_indices res) = nat k \<and> distinct (res_indices res)
     \<and> (\<forall>i\<in>set (res_indices res). i < length fps)
     \<and> ((\<forall>a b. diff a b = 0) \<longrightarrow>
          res_diversity_scores res = Some (PInf # replicate (nat k - 1) (Fin 0)))"
  using run
proof
  assume "select env diff rng g0 self fps k rs = (Inr res, self') \<and> 1 \<le> k"
  then have "select env diff rng g0 self fps k rs = (Inr res, self')" "1 \<le> k" by simp_all
  from select_indices [OF this(1) nonneg] this(2) show ?thesis by simp
next
  assume "fst (select_diverse_files env diff rng g0 disk fps k cache_dir n_jobs rs) = Inr res"
  from select_diverse_files_success [OF this] obtain g selector selector1 where
    "select env diff rng g selector fps k rs = (Inr res, selector1)" "1 \<le> k"
    by auto
  from select_indices [OF this(1) nonneg] this(2) show ?thesis by simp
qed

theorem select_returns_k_distinct_indices_witness:
  "select ex_env ex_diff ex_rng 0 ex_selector [''a'', ''b'', ''c''] 3 (Some 0)
     = (Inr ex_result, ex_selector_after)
   \<and> (\<forall>a b. 0 \<le> ex_diff a b)
   \<and> length (res_indices ex_result) = 3 \<and> distinct (res_indices ex_result)
   \<and> res_indices ex_result = [0, 2, 1]
   \<and> select ex_env (\<lambda>a b. 0) ex_rng 0 ex_selector [''a'', ''b'', ''c''] 3 (Some 0)
     = (Inr ex_zero_result, ex_selector_after)
   \<and> res_diversity_scores ex_zero_result = Some [PInf, Fin 0, Fin 0]"
proof -
  have h1: "(select ex_env ex_diff ex_rng 0 ex_selector [''a'', ''b'', ''c''] 3 (Some 0)
               = (Inr ex_result, ex_selector_after) \<and> (1::int) \<le> 3)
      \<or> fst (select_diverse_files ex_env ex_diff ex_rng 0 (\<lambda>d. Missing) [''a'', ''b'', ''c''] 3
               None 1 (Some 0)) = Inr ex_result"
    using ex_select_run by simp
  have h2: "(select ex_env (\<lambda>a b. 0) ex_rng 0 ex_selector [''a'', ''b'', ''c''] 3 (Some 0)
               = (Inr ex_zero_result, ex_selector_after) \<and> (1::int) \<le> 3)
      \<or> fst (select_diverse_files ex_env (\<lambda>a b. 0) ex_rng 0 (\<lambda>d. Missing) [''a'', ''b'', ''c''] 3
               None 1 (Some 0)) = Inr ex_zero_result"
    using ex_select_zero_run by simp
  have z: "\<forall>a b :: hash. (0::int) \<le> 0" by simp
  from select_returns_k_distinct_indices [OF h1 ex_diff_nonneg]
       select_returns_k_distinct_indices [OF h2 z]
       ex_select_run ex_select_zero_run ex_diff_nonneg
  show ?thesis by (simp add: ex_result_def numeral_2_eq_2)
qed




lemma insufficient_message_counts:
  "sublist (str_int (int n_valid)) (insufficient_message n_valid n_select)
   \<and> sublist (str_int n_select) (insufficient_message n_valid n_select)"
proof
  show "sublist (str_int (int n_valid)) (insufficient_message n_valid n_select)"
    unfolding insufficient_message_def sublist_def by blast
  have "insufficient_message n_valid n_select
      = (''Only '' @ str_int (int n_valid) @ '' valid files found, but '') @ str_int n_select
        @ '' requested. Check if files exist and are valid for TLSH hashing (>= 50 bytes).''"
    by (simp add: insufficient_message_def)
  then show "sublist (str_int n_select) (insufficient_message n_valid n_select)"
    unfolding sublist_def by blast
qed

text \<open>
  Claim C5. \<open>select_diverse_files\<close> raises \<open>ValueError\<close> for \<open>n_select \<le> 0\<close> and for
  \<open>n_select\<close> above the number of paths, leaving the snapshot files as they were, whatever
  the file system, the hashes and the cache are: nothing has been hashed. When the
  selector is built and the hashes are computed, and fewer than \<open>n_select\<close> paths have a
  hash, it raises \<open>InsufficientFilesError\<close>, whose message contains the decimal rendering
  of the valid count and of \<open>n_select\<close>, whatever the distance function and the random
  generator are: no selection has been done.
\<close>

theorem validation_errors_come_first:
  "(n_select \<le> 0 \<longrightarrow>
      select_diverse_files env diff rng g0 disk fps n_select cache_dir n_jobs rs
        = (Inl (ValueError (''n_select must be positive, got '' @ str_int n_select)), disk))
   \<and> (0 < n_select \<and> int (length fps) < n_select \<longrightarrow>
      select_diverse_files env diff rng g0 disk fps n_select cache_dir n_jobs rs
        = (Inl (ValueError (''n_select ('' @ str_int n_select
                  @ '') cannot be greater than number of files (''
                  @ str_int (int (length fps)) @ '')'')), disk))
   \<and> (0 < n_select \<and> n_select \<le> int (length fps)
        \<and> file_selector_init disk cache_dir n_jobs = Inr selector
        \<and> compute_or_load_hashes env selector fps = (Inr hdict, cmo)
        \<and> int (length hdict) < n_select \<longrightarrow>
      fst (select_diverse_files env diff rng g0 disk fps n_select cache_dir n_jobs rs)
        = Inl (InsufficientFilesError (insufficient_message (length hdict) n_select))
      \<and> sublist (str_int (int (length hdict))) (insufficient_message (length hdict) n_select)
      \<and> sublist (str_int n_select) (insufficient_message (length hdict) n_select))"
  using insufficient_message_counts [of "length hdict" n_select]
  by (simp add: select_diverse_files_def select_def Let_def)

theorem validation_errors_come_first_witness:
  "select_diverse_files ex_env ex_diff ex_rng 0 (\<lambda>d. Missing) [''a'', ''b'', ''c''] 0 None 1 (Some 0)
     = (Inl (ValueError (''n_select must be positive, got '' @ str_int 0)), (\<lambda>d. Missing))
   \<and> select_diverse_files ex_env ex_diff ex_rng 0 (\<lambda>d. Missing) [''a'', ''b'', ''c''] 5 None 1 (Some 0)
     = (Inl (ValueError (''n_select ('' @ str_int 5
                  @ '') cannot be greater than number of files ('' @ str_int 3 @ '')'')),
        (\<lambda>d. Missing))
   \<and> fst (select_diverse_files ex_env ex_diff ex_rng 0 (\<lambda>d. Missing)
            [''a'', ''tiny'', ''missing''] 2 None 1 (Some 0))
     = Inl (InsufficientFilesError (insufficient_message 1 2))
   \<and> sublist (str_int 1) (insufficient_message 1 2)
   \<and> sublist (str_int 2) (insufficient_message 1 2)
   \<and> insufficient_message 1 2
     = ''Only 1 valid files found, but 2 requested. Check if files exist and are valid for TLSH hashing (>= 50 bytes).''"
proof -
  have i: "file_selector_init (\<lambda>d. Missing) None 1 = Inr ex_selector"
    by (simp add: file_selector_init_def ex_selector_def)
  have c: "compute_or_load_hashes ex_env ex_selector [''a'', ''tiny'', ''missing'']
     = (Inr [(''a'', ''x'')], None)"
    by code_simp
  have m: "insufficient_message 1 2
     = ''Only 1 valid files found, but 2 requested. Check if files exist and are valid for TLSH hashing (>= 50 bytes).''"
    by code_simp
  from validation_errors_come_first [of 0 ex_env ex_diff ex_rng 0 "\<lambda>d. Missing"
         "[''a'', ''b'', ''c'']" None 1 "Some 0"]
       validation_errors_come_first [of 5 ex_env ex_diff ex_rng 0 "\<lambda>d. Missing"
         "[''a'', ''b'', ''c'']" None 1 "Some 0"]
       validation_errors_come_first [of 2 ex_env ex_diff ex_rng 0 "\<lambda>d. Missing"
         "[''a'', ''tiny'', ''missing'']" None 1 "Some 0" ex_selector "[(''a'', ''x'')]" None]
       i c m
  show ?thesis by simp
qed

text \<open>
  Two \<open>select\<close> calls that see the same hash dictionary (same keys, same hashes, same
  order) and the same seed agree on indices and scores, whatever the state of the
  generator before the call, the cache and the workers are.
\<close>

lemma select_given_candidates:
  assumes "compute_or_load_hashes env1 self1 fps = (Inr hdict, cmo1)"
    and "compute_or_load_hashes env2 self2 fps = (Inr hdict, cmo2)"
  shows "map_sum id (\<lambda>r. (res_indices r, res_diversity_scores r))
           (fst (select env1 diff rng g1 self1 fps k (Some s)))
       = map_sum id (\<lambda>r. (res_indices r, res_diversity_scores r))
           (fst (select env2 diff rng g2 self2 fps k (Some s)))"
  using assms
  by (simp add: select_def Let_def split: sum.splits option.splits prod.splits)

lemma init_b: "file_selector_init ex_disk_b (Some ''cache'') 1 = Inr ex_selector_b"
  by code_simp

lemma hashes_b:
  "compute_or_load_hashes ex_env ex_selector_b [''a'', ''b'']
     = (Inr [(''b'', ''xxx''), (''a'', ''x'')],
            Some \<lparr>cache = [(''b'', \<lparr>e_hash = ''xxx'', e_mtime = 2, e_size = 3\<rparr>),
                            (''a'', \<lparr>e_hash = ''x'', e_mtime = 1, e_size = 1\<rparr>)],
                   dirty = True, cache_file = ex_disk_b ''cache''\<rparr>)"
  by code_simp

lemma first_call:
  assumes "0 \<le> randint rng (seed rng s) 0 1" "randint rng (seed rng s) 0 1 \<le> 1"
  shows "select ex_env diff rng (seed rng s) ex_selector_b [''a'', ''b''] 1 (Some s)
     = (Inr \<lparr>res_indices = [1 - nat (randint rng (seed rng s) 0 1)],
             res_file_paths = [[''a'', ''b''] ! (1 - nat (randint rng (seed rng s) 0 1))],
             res_hashes = Some [(''b'', ''xxx''), (''a'', ''x'')],
             res_diversity_scores = Some [PInf]\<rparr>,
        ex_selector_b\<lparr>sel_hash_dict := [(''b'', ''xxx''), (''a'', ''x'')],
          sel_cache_manager := Some \<lparr>cache = [(''b'', \<lparr>e_hash = ''xxx'', e_mtime = 2, e_size = 3\<rparr>),
                            (''a'', \<lparr>e_hash = ''x'', e_mtime = 1, e_size = 1\<rparr>)],
                   dirty = False,
                   cache_file = Stored [(''b'', \<lparr>e_hash = ''xxx'', e_mtime = 2, e_size = 3\<rparr>),
                            (''a'', \<lparr>e_hash = ''x'', e_mtime = 1, e_size = 1\<rparr>)]\<rparr>\<rparr>)"
proof -
  from assms have "randint rng (seed rng s) 0 1 = 0 \<or> randint rng (seed rng s) 0 1 = 1" by auto
  then show ?thesis
    by (auto simp: select_def hashes_b greedy_selection_def Let_def save_def save_cache_def)
qed

lemma init_ba:
  "file_selector_init (ex_disk_b(''cache'' := Stored ex_cache_ba)) (Some ''cache'') 1
     = Inr ex_selector_ba"
  by (simp add: file_selector_init_def load_cache_def ex_selector_ba_def)

lemma hashes_ba:
  "compute_or_load_hashes ex_env ex_selector_ba [''a'', ''b'']
     = (Inr [(''a'', ''x''), (''b'', ''xxx'')],
            Some \<lparr>cache = ex_cache_ba, dirty = False, cache_file = Stored ex_cache_ba\<rparr>)"
  by code_simp

lemma second_call:
  assumes "0 \<le> randint rng (seed rng s) 0 1" "randint rng (seed rng s) 0 1 \<le> 1"
  shows "fst (select ex_env diff rng (seed rng s) ex_selector_ba [''a'', ''b''] 1 (Some s))
     = Inr \<lparr>res_indices = [nat (randint rng (seed rng s) 0 1)],
             res_file_paths = [[''a'', ''b''] ! nat (randint rng (seed rng s) 0 1)],
             res_hashes = Some [(''a'', ''x''), (''b'', ''xxx'')],
             res_diversity_scores = Some [PInf]\<rparr>"
proof -
  from assms have "randint rng (seed rng s) 0 1 = 0 \<or> randint rng (seed rng s) 0 1 = 1" by auto
  then show ?thesis
    by (auto simp: select_def hashes_ba greedy_selection_def Let_def)
qed

text \<open>
  Claim C3 (two calls on the same paths, hashes and seed return the same indices and
  scores) does not hold of the code: the order of the hash dictionary is not the order of
  the input, since cached paths come first. Take a cache that holds \<open>b\<close> only (as a call
  on \<open>[b]\<close> leaves it) and call \<open>select_diverse_files\<close> on \<open>[a, b]\<close> twice with the same
  seed, for one file. The first call sees the candidates \<open>[b, a]\<close> and stores \<open>a\<close>; the
  second sees \<open>[a, b]\<close>. Whatever position the seeded generator draws, the two calls
  return different indices.
\<close>

theorem warm_cache_changes_the_selection:
  assumes r: "0 \<le> randint rng (seed rng s) 0 1" "randint rng (seed rng s) 0 1 \<le> 1"
  shows "\<exists>i j.
     map_sum id res_indices
       (fst (select_diverse_files ex_env diff rng g0 ex_disk_b [''a'', ''b''] 1
          (Some ''cache'') 1 (Some s))) = Inr [i]
   \<and> map_sum id res_indices
       (fst (select_diverse_files ex_env diff rng g1
          (snd (select_diverse_files ex_env diff rng g0 ex_disk_b [''a'', ''b''] 1
                  (Some ''cache'') 1 (Some s)))
          [''a'', ''b''] 1 (Some ''cache'') 1 (Some s))) = Inr [j]
   \<and> i \<noteq> j"
proof -
  let ?r = "nat (randint rng (seed rng s) 0 1)"
  have c1: "select_diverse_files ex_env diff rng g0 ex_disk_b [''a'', ''b''] 1
          (Some ''cache'') 1 (Some s)
      = (Inr \<lparr>res_indices = [1 - ?r], res_file_paths = [[''a'', ''b''] ! (1 - ?r)],
              res_hashes = Some [(''b'', ''xxx''), (''a'', ''x'')],
              res_diversity_scores = Some [PInf]\<rparr>,
         ex_disk_b(''cache'' := Stored ex_cache_ba))"
    by (simp add: select_diverse_files_def init_b first_call [OF r] ex_cache_ba_def)
  have c2: "fst (select_diverse_files ex_env diff rng g1 (ex_disk_b(''cache'' := Stored ex_cache_ba))
          [''a'', ''b''] 1 (Some ''cache'') 1 (Some s))
      = Inr \<lparr>res_indices = [?r], res_file_paths = [[''a'', ''b''] ! ?r],
              res_hashes = Some [(''a'', ''x''), (''b'', ''xxx'')],
              res_diversity_scores = Some [PInf]\<rparr>"
  proof -
    obtain x y where sel:
      "select ex_env diff rng (seed rng s) ex_selector_ba [''a'', ''b''] 1 (Some s) = (x, y)"
      by (cases "select ex_env diff rng (seed rng s) ex_selector_ba [''a'', ''b''] 1 (Some s)")
    with second_call [OF r, of diff] have "x = Inr \<lparr>res_indices = [?r],
              res_file_paths = [[''a'', ''b''] ! ?r],
              res_hashes = Some [(''a'', ''x''), (''b'', ''xxx'')],
              res_diversity_scores = Some [PInf]\<rparr>" by simp
    then show ?thesis by (simp add: select_diverse_files_def init_ba sel)
  qed
  from r have "randint rng (seed rng s) 0 1 = 0 \<or> randint rng (seed rng s) 0 1 = 1" by auto
  then have "1 - ?r \<noteq> ?r" by auto
  with c1 c2 show ?thesis by simp
qed

theorem warm_cache_changes_the_selection_witness:
  "0 \<le> randint ex_rng (seed ex_rng 0) 0 1 \<and> randint ex_rng (seed ex_rng 0) 0 1 \<le> 1
   \<and> snd (select_diverse_files ex_env ex_diff ex_rng 0 (\<lambda>d. Missing) [''b''] 1
          (Some ''cache'') 1 (Some 0)) ''cache'' = ex_disk_b ''cache''
   \<and> map_sum id res_indices
       (fst (select_diverse_files ex_env ex_diff ex_rng 0 ex_disk_b [''a'', ''b''] 1
          (Some ''cache'') 1 (Some 0))) = Inr [1]
   \<and> map_sum id res_indices
       (fst (select_diverse_files ex_env ex_diff ex_rng 0
          (snd (select_diverse_files ex_env ex_diff ex_rng 0 ex_disk_b [''a'', ''b''] 1
                  (Some ''cache'') 1 (Some 0)))
          [''a'', ''b''] 1 (Some ''cache'') 1 (Some 0))) = Inr [0]"
proof -
  have r: "0 \<le> randint ex_rng (seed ex_rng 0) 0 1" "randint ex_rng (seed ex_rng 0) 0 1 \<le> 1"
    by (simp_all add: ex_rng_def)
  have e: "snd (select_diverse_files ex_env ex_diff ex_rng 0 (\<lambda>d. Missing) [''b''] 1
          (Some ''cache'') 1 (Some 0)) ''cache'' = ex_disk_b ''cache''"
   "map_sum id res_indices
       (fst (select_diverse_files ex_env ex_diff ex_rng 0 ex_disk_b [''a'', ''b''] 1
          (Some ''cache'') 1 (Some 0))) = Inr [1]"
   "map_sum id res_indices
       (fst (select_diverse_files ex_env ex_diff ex_rng 0
          (snd (select_diverse_files ex_env ex_diff ex_rng 0 ex_disk_b [''a'', ''b''] 1
                  (Some ''cache'') 1 (Some 0)))
          [''a'', ''b''] 1 (Some ''cache'') 1 (Some 0))) = Inr [0]"
    by code_simp+
  from warm_cache_changes_the_selection [OF r, of ex_diff 0 0] r e show ?thesis by simp
qed

text \<open>
  Claim C1 (a tie on the maximum goes to the candidate with the lower original index)
  does not hold of the code, for the reason that breaks claim C3: \<open>_greedy_selection\<close>
  breaks the tie by the position in the hash dictionary, where cached paths come first.
  In \<open>[a, d, b]\<close> the files \<open>a\<close> and \<open>d\<close> are at the same distance from \<open>b\<close>. With seed 2
  the first pick is \<open>b\<close>. Without a cache the second pick is \<open>a\<close>, at index 0; with a cache
  that holds \<open>d\<close> only (as a call on \<open>[d]\<close> leaves it) the candidates are \<open>[d, a, b]\<close> and the
  second pick is \<open>d\<close>, at index 1, with the same score.
\<close>

theorem warm_cache_breaks_the_tie_upward:
  "ex_diff ''xxx'' ''x'' = ex_diff ''xxx'' ''xxxxx''
   \<and> snd (select_diverse_files ex_env ex_diff ex_rng 0 (\<lambda>dir. Missing) [''d''] 1
          (Some ''cache'') 1 (Some 0)) ''cache'' = ex_disk_d ''cache''
   \<and> map_sum id (\<lambda>r. (res_indices r, res_diversity_scores r))
       (fst (select_diverse_files ex_env ex_diff ex_rng 0 ex_disk_d [''a'', ''d'', ''b''] 2
          (Some ''cache'') 1 (Some 2))) = Inr ([2, 1], Some [PInf, Fin 2])
   \<and> map_sum id (\<lambda>r. (res_indices r, res_diversity_scores r))
       (fst (select_diverse_files ex_env ex_diff ex_rng 0 (\<lambda>dir. Missing) [''a'', ''d'', ''b''] 2
          None 1 (Some 2))) = Inr ([2, 0], Some [PInf, Fin 2])"
  by code_simp

section \<open>The claim about parallel hashing\<close>

lemma sequential_fold:
  "map_of (fold (\<lambda>file_path results.
              case compute_tlsh_hash env file_path of
                Inr hash_value \<Rightarrow> AList.update file_path hash_value results
              | Inl e \<Rightarrow> results) ps r0) q
     = (if q \<in> set ps
        then (case compute_tlsh_hash env q of Inr h \<Rightarrow> Some h | Inl e \<Rightarrow> map_of r0 q)
        else map_of r0 q)"
  by (induction ps arbitrary: r0) (auto simp: update_conv' split: sum.splits)

lemma sequential_fold_distinct:
  "distinct (map fst r0) \<Longrightarrow>
   distinct (map fst (fold (\<lambda>file_path results.
              case compute_tlsh_hash env file_path of
                Inr hash_value \<Rightarrow> AList.update file_path hash_value results
              | Inl e \<Rightarrow> results) ps r0))"
  by (induction ps arbitrary: r0) (auto simp: distinct_update split: sum.splits)

lemma worker_step:
  "(\<lambda>task results.
       case compute_hash_worker env task of
         (file_path, Some hash_value) \<Rightarrow> AList.update file_path hash_value results
       | (file_path, None) \<Rightarrow> results)
   = (\<lambda>file_path results.
       case compute_tlsh_hash env file_path of
         Inr hash_value \<Rightarrow> AList.update file_path hash_value results
       | Inl e \<Rightarrow> results)"
  by (auto simp: fun_eq_iff compute_hash_worker_def split: sum.splits)

text \<open>
  Claim C9. \<open>compute_hashes_parallel\<close> never raises the \<open>InvalidHashError\<close> of a file. For a
  worker count that the pool accepts (1, at least 2, or \<open>-1\<close> on a machine with a CPU) and
  any order of completion of the tasks, it returns a dictionary, and the dictionary maps
  a path to its hash exactly when the path is in the input and its hash computation
  succeeded.
\<close>

theorem failed_files_are_omitted:
  "compute_hashes_parallel env fps n_jobs \<noteq> Inl InvalidHashError
   \<and> ((n_jobs = 1 \<or> 2 \<le> n_jobs \<or> (n_jobs = - 1 \<and> 1 \<le> cpu_count env))
        \<and> mset (as_completed env fps) = mset fps \<longrightarrow>
      (\<exists>results. compute_hashes_parallel env fps n_jobs = Inr results
         \<and> distinct (map fst results)
         \<and> (\<forall>p. map_of results p =
               (if p \<in> set fps
                then (case compute_tlsh_hash env p of Inr h \<Rightarrow> Some h | Inl e \<Rightarrow> None)
                else None))))"
proof (intro conjI impI)
  show "compute_hashes_parallel env fps n_jobs \<noteq> Inl InvalidHashError"
    by (simp add: compute_hashes_parallel_def Let_def)
next
  assume a: "(n_jobs = 1 \<or> 2 \<le> n_jobs \<or> (n_jobs = - 1 \<and> 1 \<le> cpu_count env))
        \<and> mset (as_completed env fps) = mset fps"
  then have workers: "n_jobs = 1 \<or> 2 \<le> n_jobs \<or> (n_jobs = - 1 \<and> 1 \<le> cpu_count env)"
    and perm: "mset (as_completed env fps) = mset fps" by simp_all
  let ?step = "\<lambda>file_path results.
       case compute_tlsh_hash env file_path of
         Inr hash_value \<Rightarrow> AList.update file_path hash_value results
       | Inl e \<Rightarrow> results"
  from perm have same: "set (as_completed env fps) = set fps" by (rule mset_eq_setD)
  have good: "\<And>ps. set ps = set fps \<Longrightarrow>
      distinct (map fst (fold ?step ps []))
      \<and> (\<forall>p. map_of (fold ?step ps []) p =
           (if p \<in> set fps
            then (case compute_tlsh_hash env p of Inr h \<Rightarrow> Some h | Inl e \<Rightarrow> None)
            else None))"
    using sequential_fold [of env _ "[]"] sequential_fold_distinct [of "[]" env]
    by (simp split: sum.splits)
  let ?n = "if n_jobs = - 1 then cpu_count env else n_jobs"
  show "\<exists>results. compute_hashes_parallel env fps n_jobs = Inr results
         \<and> distinct (map fst results)
         \<and> (\<forall>p. map_of results p =
               (if p \<in> set fps
                then (case compute_tlsh_hash env p of Inr h \<Rightarrow> Some h | Inl e \<Rightarrow> None)
                else None))"
  proof (cases "?n = 1")
    case True
    then have "compute_hashes_parallel env fps n_jobs = Inr (fold ?step fps [])"
      by (simp add: compute_hashes_parallel_def Let_def)
    with good [of fps] show ?thesis by simp
  next
    case False
    with workers have "\<not> ?n \<le> 0" by auto
    with False have "compute_hashes_parallel env fps n_jobs
        = Inr (fold ?step (as_completed env fps) [])"
      by (simp add: compute_hashes_parallel_def Let_def worker_step)
    with good [OF same] show ?thesis by simp
  qed
qed

theorem failed_files_are_omitted_witness:
  "mset (as_completed ex_env [''a'', ''tiny'', ''missing'', ''b''])
     = mset [''a'', ''tiny'', ''missing'', ''b'']
   \<and> (\<exists>results. compute_hashes_parallel ex_env [''a'', ''tiny'', ''missing'', ''b''] 2 = Inr results
        \<and> distinct (map fst results)
        \<and> map_of results ''a'' = Some ''x'' \<and> map_of results ''b'' = Some ''xxx''
        \<and> map_of results ''tiny'' = None \<and> map_of results ''missing'' = None)"
proof -
  have perm: "mset (as_completed ex_env [''a'', ''tiny'', ''missing'', ''b''])
     = mset [''a'', ''tiny'', ''missing'', ''b'']"
    by (simp add: ex_env_def)
  have w: "(2::int) = 1 \<or> (2::int) \<le> 2 \<or> ((2::int) = - 1 \<and> 1 \<le> cpu_count ex_env)" by simp
  have h: "compute_tlsh_hash ex_env ''a'' = Inr ''x''" "compute_tlsh_hash ex_env ''b'' = Inr ''xxx''"
    "compute_tlsh_hash ex_env ''tiny'' = Inl InvalidHashError"
    "compute_tlsh_hash ex_env ''missing'' = Inl InvalidHashError"
    by code_simp+
  from failed_files_are_omitted [of ex_env "[''a'', ''tiny'', ''missing'', ''b'']" 2] w perm
  obtain results where
    r: "compute_hashes_parallel ex_env [''a'', ''tiny'', ''missing'', ''b''] 2 = Inr results"
    "distinct (map fst results)"
    "\<forall>p. map_of results p =
           (if p \<in> set [''a'', ''tiny'', ''missing'', ''b'']
            then (case compute_tlsh_hash ex_env p of Inr h \<Rightarrow> Some h | Inl e \<Rightarrow> None)
            else None)"
    by blast
  from r(3) h have "map_of results ''a'' = Some ''x''" "map_of results ''b'' = Some ''xxx''"
    "map_of results ''tiny'' = None" "map_of results ''missing'' = None"
    by simp_all
  with perm r(1,2) show ?thesis by blast
qed

end
